theory Spec2Isabelle
  imports Main "HOL-Library.Word" "HOL-Library.Sublist"
begin

section \<open>Strings\<close>

text \<open>
  A JavaScript string is a sequence of 16-bit code units. String literals of the source
  are written through \<open>js\<close>, which maps each character of an ASCII literal to its code
  unit.
\<close>

type_synonym code_unit = "16 word"
type_synonym jsstring = "code_unit list"

definition js :: "string \<Rightarrow> jsstring" where
  "js s = map of_char s"

text \<open>
  \<open>String.prototype.trim\<close> removes the WhiteSpace and LineTerminator code points of
  ECMAScript from both ends: TAB, LF, VT, FF, CR, SP, NBSP, the space separators
  U+1680, U+2000..U+200A, U+202F, U+205F, U+3000, the separators U+2028 and U+2029,
  and U+FEFF.
\<close>

definition isWhiteSpace :: "code_unit \<Rightarrow> bool" where
  "isWhiteSpace c \<longleftrightarrow>
     (0x09 \<le> c \<and> c \<le> 0x0D) \<or> c = 0x20 \<or> c = 0xA0 \<or> c = 0x1680 \<or>
     (0x2000 \<le> c \<and> c \<le> 0x200A) \<or> c = 0x2028 \<or> c = 0x2029 \<or> c = 0x202F \<or>
     c = 0x205F \<or> c = 0x3000 \<or> c = 0xFEFF"

definition trim :: "jsstring \<Rightarrow> jsstring" where
  "trim s = rev (dropWhile isWhiteSpace (rev (dropWhile isWhiteSpace s)))"

text \<open>
  \<open>Number.prototype.toString\<close> on an integral number: the decimal digits, after a minus
  sign when the number is negative. \<open>Date.now()\<close> is an integer of magnitude at most
  8.64e15, far below 1e21 where JavaScript switches to exponent notation.
\<close>

definition digitChar :: "nat \<Rightarrow> code_unit" where
  "digitChar d = of_nat (48 + d)"

function decimal :: "nat \<Rightarrow> jsstring" where
  "decimal n = (if n < 10 then [digitChar n] else decimal (n div 10) @ [digitChar (n mod 10)])"
  by pat_completeness auto
termination
  by (relation "measure (\<lambda>n. n)") auto

declare decimal.simps [simp del]

definition toString :: "int \<Rightarrow> jsstring" where
  "toString i = (if i < 0 then 0x2D # decimal (nat (- i)) else decimal (nat i))"

text \<open>Reading a decimal numeral back: the inverse of \<open>decimal\<close>.\<close>

definition fromDigits :: "jsstring \<Rightarrow> nat" where
  "fromDigits s = foldl (\<lambda>a c. 10 * a + (unat c - 48)) 0 s"

section \<open>Data model\<close>

text \<open>
  The edit buffer \<open>editNote\<close> is an object \<open>{title, content}\<close>; a stored note is
  \<open>{id, title, content, lastEdited}\<close>. The field \<open>id\<close> is named \<open>note_id\<close> here.
\<close>

record draft =
  title :: jsstring
  content :: jsstring

record Note = draft +
  note_id :: jsstring
  lastEdited :: jsstring

text \<open>The component's state: one field for each \<open>useState\<close> of \<open>App\<close>.\<close>

record app_state =
  "notes" :: "Note list"
  selectedId :: "jsstring option"
  isCreating :: bool
  editNote :: draft
  search :: jsstring
  sidebarOpen :: bool

definition emptyDraft :: draft where
  "emptyDraft = \<lparr>title = [], content = []\<rparr>"

text \<open>
  \<open>selectedId\<close> is \<open>null\<close> or a string; in a condition both \<open>null\<close> and the empty
  string are falsy.
\<close>

definition truthy :: "jsstring option \<Rightarrow> bool" where
  "truthy v = (case v of None \<Rightarrow> False | Some s \<Rightarrow> s \<noteq> [])"

definition orUntitled :: "jsstring \<Rightarrow> jsstring" where
  "orUntitled t = (if t = [] then js ''(Untitled)'' else t)"

section \<open>Event handlers\<close>

definition currentNote :: "app_state \<Rightarrow> Note option" where
  "currentNote st = find (\<lambda>n. Some (note_id n) = selectedId st) (notes st)"

definition handleAddNote :: "app_state \<Rightarrow> app_state" where
  "handleAddNote st = st\<lparr>isCreating := True, editNote := emptyDraft, selectedId := None\<rparr>"

definition handleSelectNote :: "jsstring \<Rightarrow> app_state \<Rightarrow> app_state" where
  "handleSelectNote noteId st =
     st\<lparr>selectedId := Some noteId, isCreating := False, editNote := emptyDraft\<rparr>"

definition handleEditNote :: "app_state \<Rightarrow> app_state" where
  "handleEditNote st =
     (case currentNote st of
        None \<Rightarrow> st\<lparr>isCreating := False\<rparr>
      | Some n \<Rightarrow> st\<lparr>isCreating := False, editNote := \<lparr>title = title n, content = content n\<rparr>\<rparr>)"

definition handleDeleteNote :: "jsstring \<Rightarrow> app_state \<Rightarrow> app_state" where
  "handleDeleteNote idToDelete st =
     (let updated = filter (\<lambda>n. note_id n \<noteq> idToDelete) (notes st) in
      st\<lparr>notes := updated,
         selectedId :=
           (if selectedId st = Some idToDelete
            then (case updated of [] \<Rightarrow> None | n # _ \<Rightarrow> Some (note_id n))
            else selectedId st),
         isCreating := False\<rparr>)"

text \<open>
  The update branch of \<open>handleSaveNote\<close> maps over the collection and reads the clock
  (\<open>new Date().toISOString()\<close>) once for each note it replaces: \<open>clock k\<close> is the
  \<open>k\<close>-th reading made by the handler.
\<close>

fun updateNotes ::
  "jsstring option \<Rightarrow> jsstring \<Rightarrow> jsstring \<Rightarrow> (nat \<Rightarrow> jsstring) \<Rightarrow> nat \<Rightarrow> Note list \<Rightarrow> Note list"
where
  "updateNotes sel t c clock k [] = []"
| "updateNotes sel t c clock k (n # ns) =
     (if Some (note_id n) = sel
      then n\<lparr>title := orUntitled t, content := c, lastEdited := clock k\<rparr>
             # updateNotes sel t c clock (Suc k) ns
      else n # updateNotes sel t c clock k ns)"

text \<open>
  \<open>handleSaveNote\<close>: \<open>now\<close> is the reading of \<open>Date.now()\<close> and \<open>clock\<close> the readings of
  \<open>new Date().toISOString()\<close>.
\<close>

definition handleSaveNote :: "int \<Rightarrow> (nat \<Rightarrow> jsstring) \<Rightarrow> app_state \<Rightarrow> app_state" where
  "handleSaveNote now clock st =
     (let trimmedTitle = trim (title (editNote st));
          trimmedContent = trim (content (editNote st))
      in if trimmedTitle = [] \<and> trimmedContent = [] then st
         else if truthy (selectedId st) \<and> \<not> isCreating st then
           st\<lparr>notes := updateNotes (selectedId st) trimmedTitle trimmedContent clock 0 (notes st),
              editNote := emptyDraft\<rparr>
         else
           (let newId = toString now in
            st\<lparr>notes :=
                 \<lparr>title = orUntitled trimmedTitle, content = trimmedContent,
                  note_id = newId, lastEdited = clock 0\<rparr> # notes st,
               selectedId := Some newId,
               isCreating := False,
               editNote := emptyDraft\<rparr>))"

datatype field = Title | Content

definition handleFieldChange :: "field \<Rightarrow> jsstring \<Rightarrow> app_state \<Rightarrow> app_state" where
  "handleFieldChange name v st =
     (case name of
        Title \<Rightarrow> st\<lparr>editNote := (editNote st)\<lparr>title := v\<rparr>\<rparr>
      | Content \<Rightarrow> st\<lparr>editNote := (editNote st)\<lparr>content := v\<rparr>\<rparr>)"

definition handleSidebarToggle :: "app_state \<Rightarrow> app_state" where
  "handleSidebarToggle st = st\<lparr>sidebarOpen := \<not> sidebarOpen st\<rparr>"

text \<open>The Cancel button of the form.\<close>

definition handleCancel :: "app_state \<Rightarrow> app_state" where
  "handleCancel st = st\<lparr>isCreating := False, editNote := emptyDraft\<rparr>"

definition handleResize :: "nat \<Rightarrow> app_state \<Rightarrow> app_state" where
  "handleResize innerWidth st = st\<lparr>sidebarOpen := (innerWidth > 800)\<rparr>"

section \<open>The selection effect and the event loop\<close>

text \<open>
  The effect with dependencies \<open>[notes, selectedId]\<close>: both conditions are read from the
  state of the render that scheduled it.
\<close>

definition selectEffect :: "app_state \<Rightarrow> app_state" where
  "selectEffect st =
     (case notes st of
        [] \<Rightarrow> st\<lparr>selectedId := None, isCreating := False, editNote := emptyDraft\<rparr>
      | n # _ \<Rightarrow> if \<not> truthy (selectedId st) then st\<lparr>selectedId := Some (note_id n)\<rparr> else st)"

datatype command =
    AddNote
  | SelectNote jsstring
  | EditNote
  | DeleteNote jsstring
  | SaveNote int "nat \<Rightarrow> jsstring"
  | FieldChange field jsstring
  | Cancel
  | SetSearch jsstring
  | SidebarToggle
  | Resize nat

fun handle :: "command \<Rightarrow> app_state \<Rightarrow> app_state" where
  "handle AddNote st = handleAddNote st"
| "handle (SelectNote i) st = handleSelectNote i st"
| "handle EditNote st = handleEditNote st"
| "handle (DeleteNote i) st = handleDeleteNote i st"
| "handle (SaveNote now clock) st = handleSaveNote now clock st"
| "handle (FieldChange name v) st = handleFieldChange name v st"
| "handle Cancel st = handleCancel st"
| "handle (SetSearch q) st = st\<lparr>search := q\<rparr>"
| "handle SidebarToggle st = handleSidebarToggle st"
| "handle (Resize w) st = handleResize w st"

text \<open>
  Whether the handler calls \<open>setNotes\<close>. It always passes a freshly built array, so the
  \<open>notes\<close> dependency of the effect changes even when the contents do not.
\<close>

fun setsNotes :: "command \<Rightarrow> app_state \<Rightarrow> bool" where
  "setsNotes (DeleteNote i) st = True"
| "setsNotes (SaveNote now clock) st =
     (\<not> (trim (title (editNote st)) = [] \<and> trim (content (editNote st)) = []))"
| "setsNotes _ st = False"

text \<open>
  One user event: the handler runs, and when a dependency of the effect has changed the
  effect runs after the render. The effect is idempotent, so the re-render it may cause
  changes nothing more.
\<close>

definition dispatch :: "command \<Rightarrow> app_state \<Rightarrow> app_state" where
  "dispatch cmd st =
     (let st' = handle cmd st in
      if setsNotes cmd st \<or> selectedId st' \<noteq> selectedId st then selectEffect st' else st')"

fun exec :: "command list \<Rightarrow> app_state \<Rightarrow> app_state" where
  "exec [] st = st"
| "exec (cmd # cmds) st = exec cmds (dispatch cmd st)"

text \<open>The state of the first render over a collection \<open>ns\<close>, after the mount effects.\<close>

definition mount :: "nat \<Rightarrow> Note list \<Rightarrow> app_state" where
  "mount innerWidth ns =
     handleResize innerWidth
       (selectEffect
          \<lparr>notes = ns, selectedId = None, isCreating = False, editNote = emptyDraft,
           search = [], sidebarOpen = True\<rparr>)"

text \<open>
  The store's \<open>add(title, content)\<close> as the interface offers it: the add button, the two
  form fields, the save button.
\<close>

definition add :: "int \<Rightarrow> (nat \<Rightarrow> jsstring) \<Rightarrow> jsstring \<Rightarrow> jsstring \<Rightarrow> app_state \<Rightarrow> app_state" where
  "add now clock t c st =
     dispatch (SaveNote now clock)
       (dispatch (FieldChange Content c) (dispatch (FieldChange Title t) (dispatch AddNote st)))"

section \<open>Derived views\<close>

text \<open>What \<open>MainArea\<close> renders: the form, the selected note, or the empty message.\<close>

datatype main_area = EditForm draft | NoteView Note | NoNotes

definition MainArea :: "app_state \<Rightarrow> main_area" where
  "MainArea st =
     (if isCreating st \<or> (truthy (selectedId st) \<and> title (editNote st) \<noteq> [])
      then EditForm (editNote st)
      else (case currentNote st of Some n \<Rightarrow> NoteView n | None \<Rightarrow> NoNotes))"

section \<open>The sidebar search\<close>

text \<open>
  \<open>String.prototype.startsWith\<close> and \<open>String.prototype.includes\<close>, on code units.
\<close>

fun startsWith :: "jsstring \<Rightarrow> jsstring \<Rightarrow> bool" where
  "startsWith s [] = True"
| "startsWith [] (c # q) = False"
| "startsWith (a # s) (c # q) = (a = c \<and> startsWith s q)"

fun js_includes :: "jsstring \<Rightarrow> jsstring \<Rightarrow> bool" where
  "js_includes [] q = (q = [])"
| "js_includes (a # s) q = (startsWith (a # s) q \<or> js_includes s q)"

text \<open>
  \<open>String.prototype.toLowerCase\<close> follows the locale-insensitive case mappings of the
  Unicode character database, those of SpecialCasing included (ECMA-262, 22.1.3.28). The
  model has the mappings of Basic Latin, of the Latin-1 Supplement and of the Greek
  letters from U+0391 to U+03CE, with the one context-dependent mapping, \<open>Final_Sigma\<close>:
  a capital sigma that follows a cased letter and is not followed by one, case-ignorable
  characters skipped on both sides, becomes the final sigma U+03C2 and not U+03C3. The
  case-ignorable characters of the model are those of Latin-1 and the combining marks
  U+0300 to U+036F. On strings whose code units lie in U+0000..U+00FF and
  U+0391..U+03CE the model is the platform's function; the other code units it leaves
  as they are, and nothing below is claimed about strings that hold them.
\<close>

definition isUpperLatin :: "code_unit \<Rightarrow> bool" where
  "isUpperLatin c \<longleftrightarrow> (0x41 \<le> c \<and> c \<le> 0x5A) \<or> (0xC0 \<le> c \<and> c \<le> 0xDE \<and> c \<noteq> 0xD7)"

definition isUpperGreek :: "code_unit \<Rightarrow> bool" where
  "isUpperGreek c \<longleftrightarrow> 0x391 \<le> c \<and> c \<le> 0x3AB \<and> c \<noteq> 0x3A2"

definition lowerUnit :: "code_unit \<Rightarrow> code_unit" where
  "lowerUnit c = (if isUpperLatin c \<or> isUpperGreek c then c + 0x20 else c)"

definition isCased :: "code_unit \<Rightarrow> bool" where
  "isCased c \<longleftrightarrow>
     (0x41 \<le> c \<and> c \<le> 0x5A) \<or> (0x61 \<le> c \<and> c \<le> 0x7A) \<or> c = 0xAA \<or> c = 0xB5 \<or> c = 0xBA \<or>
     (0xC0 \<le> c \<and> c \<le> 0xFF \<and> c \<noteq> 0xD7 \<and> c \<noteq> 0xF7) \<or>
     (0x391 \<le> c \<and> c \<le> 0x3CE \<and> c \<noteq> 0x3A2)"

definition isCaseIgnorable :: "code_unit \<Rightarrow> bool" where
  "isCaseIgnorable c \<longleftrightarrow>
     c = 0x27 \<or> c = 0x2E \<or> c = 0x3A \<or> c = 0x5E \<or> c = 0x60 \<or> c = 0xA8 \<or> c = 0xAD \<or>
     c = 0xAF \<or> c = 0xB4 \<or> c = 0xB7 \<or> c = 0xB8 \<or> (0x300 \<le> c \<and> c \<le> 0x36F)"

text \<open>
  Whether the first code unit of \<open>s\<close> that is not case-ignorable is a cased letter.
\<close>

definition nextIsCased :: "jsstring \<Rightarrow> bool" where
  "nextIsCased s = (case dropWhile isCaseIgnorable s of [] \<Rightarrow> False | c # _ \<Rightarrow> isCased c)"

text \<open>
  \<open>lowerFrom before s\<close> maps \<open>s\<close>, where \<open>before\<close> holds the code units that precede
  it, the nearest first.
\<close>

fun lowerFrom :: "jsstring \<Rightarrow> jsstring \<Rightarrow> jsstring" where
  "lowerFrom before [] = []"
| "lowerFrom before (c # cs) =
     (if c = 0x3A3 \<and> nextIsCased before \<and> \<not> nextIsCased cs then 0x3C2 else lowerUnit c)
       # lowerFrom (c # before) cs"

definition toLowerCase :: "jsstring \<Rightarrow> jsstring" where
  "toLowerCase s = lowerFrom [] s"

text \<open>\<open>filteredNotes\<close>, the list the sidebar shows.\<close>

definition filteredNotes :: "app_state \<Rightarrow> Note list" where
  "filteredNotes st =
     (if search st \<noteq> []
      then filter
             (\<lambda>n. js_includes (toLowerCase (title n)) (toLowerCase (search st)) \<or>
                  js_includes (toLowerCase (content n)) (toLowerCase (search st)))
             (notes st)
      else notes st)"

section \<open>The specification's notions\<close>

text \<open>
  These definitions follow the words of the specification and not the code; the
  theorems compare the code with them.

  Trimming: \<open>r\<close> is \<open>s\<close> trimmed when \<open>s\<close> is \<open>r\<close> between two runs of white space and
  \<open>r\<close> neither starts nor ends with white space.
\<close>

definition trimmed :: "jsstring \<Rightarrow> jsstring \<Rightarrow> bool" where
  "trimmed s r \<longleftrightarrow>
     list_ex
       (\<lambda>before. list_ex
          (\<lambda>after. s = before @ r @ after \<and> list_all isWhiteSpace before \<and>
             list_all isWhiteSpace after)
          (suffixes s))
       (prefixes s) \<and>
     (r = [] \<or> (\<not> isWhiteSpace (hd r) \<and> \<not> isWhiteSpace (last r)))"

text \<open>
  Case-insensitive containment, for the letters of Basic Latin and the Latin-1
  Supplement: the capitals are A to Z and U+00C0 to U+00DE without the multiplication
  sign, and the small form of a capital is 32 code points above it. Two code units are
  the same letter, case ignored, when they are equal or one is the small form of the
  other; a string contains a query case-insensitively when one of its contiguous
  stretches matches the query unit by unit in that sense.
\<close>

definition capitalLetter :: "code_unit \<Rightarrow> bool" where
  "capitalLetter c \<longleftrightarrow>
     (0x41 \<le> c \<and> c \<le> 0x5A) \<or> (0xC0 \<le> c \<and> c \<le> 0xD6) \<or> (0xD8 \<le> c \<and> c \<le> 0xDE)"

definition sameIgnoringCase :: "code_unit \<Rightarrow> code_unit \<Rightarrow> bool" where
  "sameIgnoringCase a b \<longleftrightarrow>
     a = b \<or> (capitalLetter a \<and> b = a + 0x20) \<or> (capitalLetter b \<and> a = b + 0x20)"

definition containsIgnoringCase :: "jsstring \<Rightarrow> jsstring \<Rightarrow> bool" where
  "containsIgnoringCase s q \<longleftrightarrow> list_ex (\<lambda>mid. list_all2 sameIgnoringCase mid q) (sublists s)"

definition latin1 :: "jsstring \<Rightarrow> bool" where
  "latin1 s \<longleftrightarrow> list_all (\<lambda>c. c \<le> 0xFF) s"

section \<open>JSON\<close>

text \<open>
  The values \<open>JSON.parse\<close> builds. A number keeps the text of its literal; an object
  is the list of its properties in enumeration order.
\<close>

datatype json =
    JNull
  | JBool bool
  | JNumber jsstring
  | JString jsstring
  | JArray "json list"
  | JObject "(jsstring \<times> json) list"

text \<open>
  The exceptions of the platform that the component can meet. \<open>FuelExhausted\<close> is not
  one of them: it is what the parser below returns when the bound on its recursion runs
  out, which does not happen with the bound \<open>JSON_parse\<close> gives it (lemmas
  \<open>JSON_parse_error\<close> and \<open>JSON_parse_bound_irrelevant\<close>).
\<close>

datatype js_error = SyntaxError | QuotaExceededError | FuelExhausted

text \<open>The lexical grammar: white space, digits, and the characters of a string.\<close>

definition isJSONWhiteSpace :: "code_unit \<Rightarrow> bool" where
  "isJSONWhiteSpace c \<longleftrightarrow> c = 0x20 \<or> c = 0x09 \<or> c = 0x0A \<or> c = 0x0D"

definition skipWS :: "jsstring \<Rightarrow> jsstring" where
  "skipWS s = dropWhile isJSONWhiteSpace s"

definition isDigit :: "code_unit \<Rightarrow> bool" where
  "isDigit c \<longleftrightarrow> 0x30 \<le> c \<and> c \<le> 0x39"

definition hexValue :: "code_unit \<Rightarrow> nat option" where
  "hexValue c =
     (if 0x30 \<le> c \<and> c \<le> 0x39 then Some (unat c - 0x30)
      else if 0x61 \<le> c \<and> c \<le> 0x66 then Some (unat c - 0x61 + 10)
      else if 0x41 \<le> c \<and> c \<le> 0x46 then Some (unat c - 0x41 + 10)
      else None)"

definition unescape :: "code_unit \<Rightarrow> code_unit option" where
  "unescape e =
     (if e = 0x22 then Some 0x22
      else if e = 0x5C then Some 0x5C
      else if e = 0x2F then Some 0x2F
      else if e = 0x62 then Some 0x08
      else if e = 0x66 then Some 0x0C
      else if e = 0x6E then Some 0x0A
      else if e = 0x72 then Some 0x0D
      else if e = 0x74 then Some 0x09
      else None)"

definition consChar ::
  "code_unit \<Rightarrow> js_error + (jsstring \<times> jsstring) \<Rightarrow> js_error + (jsstring \<times> jsstring)" where
  "consChar c res = (case res of Inl e \<Rightarrow> Inl e | Inr (s, r) \<Rightarrow> Inr (c # s, r))"

fun parseChars :: "jsstring \<Rightarrow> js_error + (jsstring \<times> jsstring)" where
  "parseChars [] = Inl SyntaxError"
| "parseChars (c # cs) =
     (if c = 0x22 then Inr ([], cs)
      else if c = 0x5C then
        (case cs of
           [] \<Rightarrow> Inl SyntaxError
         | e # r \<Rightarrow>
             if e = 0x75 then
               (case r of
                  h1 # h2 # h3 # h4 # r' \<Rightarrow>
                    (case (hexValue h1, hexValue h2, hexValue h3, hexValue h4) of
                       (Some a, Some b, Some c', Some d) \<Rightarrow>
                         consChar (of_nat (((a * 16 + b) * 16 + c') * 16 + d)) (parseChars r')
                     | _ \<Rightarrow> Inl SyntaxError)
                | _ \<Rightarrow> Inl SyntaxError)
             else
               (case unescape e of
                  None \<Rightarrow> Inl SyntaxError
                | Some u \<Rightarrow> consChar u (parseChars r)))
      else if c < 0x20 then Inl SyntaxError
      else consChar c (parseChars cs))"

text \<open>The number grammar: the literal's text is kept as the value.\<close>

definition fracPart :: "jsstring \<Rightarrow> js_error + (jsstring \<times> jsstring)" where
  "fracPart s =
     (case s of
        [] \<Rightarrow> Inr ([], s)
      | c # r \<Rightarrow>
          if c = 0x2E then
            (if takeWhile isDigit r = [] then Inl SyntaxError
             else Inr (c # takeWhile isDigit r, dropWhile isDigit r))
          else Inr ([], s))"

definition expSign :: "jsstring \<Rightarrow> jsstring \<times> jsstring" where
  "expSign s =
     (case s of
        [] \<Rightarrow> ([], s)
      | c # r \<Rightarrow> if c = 0x2B \<or> c = 0x2D then ([c], r) else ([], s))"

definition expPart :: "jsstring \<Rightarrow> js_error + (jsstring \<times> jsstring)" where
  "expPart s =
     (case s of
        [] \<Rightarrow> Inr ([], s)
      | c # r \<Rightarrow>
          if c = 0x65 \<or> c = 0x45 then
            (case expSign r of
               (sg, r1) \<Rightarrow>
                 if takeWhile isDigit r1 = [] then Inl SyntaxError
                 else Inr (c # sg @ takeWhile isDigit r1, dropWhile isDigit r1))
          else Inr ([], s))"

definition intPart :: "jsstring \<Rightarrow> js_error + (jsstring \<times> jsstring)" where
  "intPart s =
     (case s of
        [] \<Rightarrow> Inl SyntaxError
      | d # r \<Rightarrow>
          if d = 0x30 then Inr ([d], r)
          else if isDigit d then Inr (d # takeWhile isDigit r, dropWhile isDigit r)
          else Inl SyntaxError)"

definition parseNumber :: "jsstring \<Rightarrow> js_error + (jsstring \<times> jsstring)" where
  "parseNumber s =
     (case (case s of [] \<Rightarrow> ([], s) | c # r \<Rightarrow> if c = 0x2D then ([c], r) else ([], s)) of
        (sg, s1) \<Rightarrow>
          (case intPart s1 of
             Inl e \<Rightarrow> Inl e
           | Inr (ip, s2) \<Rightarrow>
               (case fracPart s2 of
                  Inl e \<Rightarrow> Inl e
                | Inr (fp, s3) \<Rightarrow>
                    (case expPart s3 of
                       Inl e \<Rightarrow> Inl e
                     | Inr (ep, s4) \<Rightarrow> Inr (sg @ ip @ fp @ ep, s4)))))"

text \<open>
  Own property keys are kept in the order JavaScript enumerates them: array indices
  (canonical decimal numerals below \<open>2^32 - 1\<close>) in ascending order, then the other keys
  in the order of their creation. Defining a key that exists replaces its value in place.
\<close>

definition isArrayIndex :: "jsstring \<Rightarrow> bool" where
  "isArrayIndex k \<longleftrightarrow>
     k \<noteq> [] \<and> list_all isDigit k \<and> (k = [0x30] \<or> hd k \<noteq> 0x30) \<and>
     fromDigits k < 2 ^ 32 - 1"

fun insertIndex :: "jsstring \<Rightarrow> json \<Rightarrow> (jsstring \<times> json) list \<Rightarrow> (jsstring \<times> json) list" where
  "insertIndex k v [] = [(k, v)]"
| "insertIndex k v ((k', v') # kvs) =
     (if isArrayIndex k' \<and> fromDigits k' < fromDigits k
      then (k', v') # insertIndex k v kvs
      else (k, v) # (k', v') # kvs)"

definition setProperty :: "jsstring \<Rightarrow> json \<Rightarrow> (jsstring \<times> json) list \<Rightarrow> (jsstring \<times> json) list" where
  "setProperty k v kvs =
     (if k \<in> fst ` set kvs then map (\<lambda>(k', v'). if k' = k then (k', v) else (k', v')) kvs
      else if isArrayIndex k then insertIndex k v kvs
      else kvs @ [(k, v)])"

text \<open>
  The JSON grammar by recursive descent: a value, the elements of an array after its
  opening bracket, the members of an object after its opening brace. Each function
  returns the value and the rest of the text. The first argument bounds the depth of the
  recursion.
\<close>

fun parseValue :: "nat \<Rightarrow> jsstring \<Rightarrow> js_error + (json \<times> jsstring)"
and parseElements :: "nat \<Rightarrow> json list \<Rightarrow> jsstring \<Rightarrow> js_error + (json \<times> jsstring)"
and parseMembers :: "nat \<Rightarrow> (jsstring \<times> json) list \<Rightarrow> jsstring \<Rightarrow> js_error + (json \<times> jsstring)"
where
  "parseValue 0 s = Inl FuelExhausted"
| "parseValue (Suc n) s =
     (case s of
        [] \<Rightarrow> Inl SyntaxError
      | c # cs \<Rightarrow>
          if c = 0x22 then
            (case parseChars cs of
               Inl e \<Rightarrow> Inl e
             | Inr (str, r) \<Rightarrow> Inr (JString str, r))
          else if c = 0x5B then
            (case skipWS cs of
               [] \<Rightarrow> Inl SyntaxError
             | d # r \<Rightarrow> if d = 0x5D then Inr (JArray [], r) else parseElements n [] (d # r))
          else if c = 0x7B then
            (case skipWS cs of
               [] \<Rightarrow> Inl SyntaxError
             | d # r \<Rightarrow> if d = 0x7D then Inr (JObject [], r) else parseMembers n [] (d # r))
          else if c = 0x2D \<or> isDigit c then
            (case parseNumber s of
               Inl e \<Rightarrow> Inl e
             | Inr (t, r) \<Rightarrow> Inr (JNumber t, r))
          else if startsWith s (js ''true'') then Inr (JBool True, drop 4 s)
          else if startsWith s (js ''false'') then Inr (JBool False, drop 5 s)
          else if startsWith s (js ''null'') then Inr (JNull, drop 4 s)
          else Inl SyntaxError)"
| "parseElements 0 acc s = Inl FuelExhausted"
| "parseElements (Suc n) acc s =
     (case parseValue n s of
        Inl e \<Rightarrow> Inl e
      | Inr (v, r) \<Rightarrow>
          (case skipWS r of
             [] \<Rightarrow> Inl SyntaxError
           | d # r' \<Rightarrow>
               if d = 0x5D then Inr (JArray (acc @ [v]), r')
               else if d = 0x2C then parseElements n (acc @ [v]) (skipWS r')
               else Inl SyntaxError))"
| "parseMembers 0 acc s = Inl FuelExhausted"
| "parseMembers (Suc n) acc s =
     (case s of
        [] \<Rightarrow> Inl SyntaxError
      | q # cs \<Rightarrow>
          if q \<noteq> 0x22 then Inl SyntaxError
          else
            (case parseChars cs of
               Inl e \<Rightarrow> Inl e
             | Inr (key, r) \<Rightarrow>
                 (case skipWS r of
                    [] \<Rightarrow> Inl SyntaxError
                  | col # r1 \<Rightarrow>
                      if col \<noteq> 0x3A then Inl SyntaxError
                      else
                        (case parseValue n (skipWS r1) of
                           Inl e \<Rightarrow> Inl e
                         | Inr (v, r2) \<Rightarrow>
                             (case skipWS r2 of
                                [] \<Rightarrow> Inl SyntaxError
                              | d # r3 \<Rightarrow>
                                  if d = 0x7D then Inr (JObject (setProperty key v acc), r3)
                                  else if d = 0x2C then
                                    parseMembers n (setProperty key v acc) (skipWS r3)
                                  else Inl SyntaxError)))))"

definition JSON_parse :: "jsstring \<Rightarrow> js_error + json" where
  "JSON_parse text =
     (case parseValue (2 * length text + 1) (skipWS text) of
        Inl e \<Rightarrow> Inl e
      | Inr (v, r) \<Rightarrow> if skipWS r = [] then Inr v else Inl SyntaxError)"

text \<open>
  \<open>JSON.stringify\<close>. \<open>QuoteJSONString\<close> escapes the quotation mark, the reverse solidus,
  the control characters and every surrogate that is not half of a pair; a leading
  surrogate followed by a trailing one is copied. A number is written as the text it
  keeps; the values the component serialises hold no number.
\<close>

definition isLeadingSurrogate :: "code_unit \<Rightarrow> bool" where
  "isLeadingSurrogate c \<longleftrightarrow> 0xD800 \<le> c \<and> c \<le> 0xDBFF"

definition isTrailingSurrogate :: "code_unit \<Rightarrow> bool" where
  "isTrailingSurrogate c \<longleftrightarrow> 0xDC00 \<le> c \<and> c \<le> 0xDFFF"

definition hexDigit :: "nat \<Rightarrow> code_unit" where
  "hexDigit d = (if d < 10 then of_nat (0x30 + d) else of_nat (0x61 + (d - 10)))"

definition UnicodeEscape :: "code_unit \<Rightarrow> jsstring" where
  "UnicodeEscape c =
     [0x5C, 0x75, hexDigit (unat c div 4096), hexDigit (unat c div 256 mod 16),
      hexDigit (unat c div 16 mod 16), hexDigit (unat c mod 16)]"

definition escapeUnit :: "code_unit \<Rightarrow> jsstring" where
  "escapeUnit c =
     (if c = 0x08 then [0x5C, 0x62]
      else if c = 0x09 then [0x5C, 0x74]
      else if c = 0x0A then [0x5C, 0x6E]
      else if c = 0x0C then [0x5C, 0x66]
      else if c = 0x0D then [0x5C, 0x72]
      else if c = 0x22 then [0x5C, 0x22]
      else if c = 0x5C then [0x5C, 0x5C]
      else if c < 0x20 \<or> isLeadingSurrogate c \<or> isTrailingSurrogate c then UnicodeEscape c
      else [c])"

fun quoteBody :: "jsstring \<Rightarrow> jsstring" where
  "quoteBody [] = []"
| "quoteBody [c] = escapeUnit c"
| "quoteBody (c # d # cs) =
     (if isLeadingSurrogate c \<and> isTrailingSurrogate d then c # d # quoteBody cs
      else escapeUnit c @ quoteBody (d # cs))"

definition QuoteJSONString :: "jsstring \<Rightarrow> jsstring" where
  "QuoteJSONString s = 0x22 # quoteBody s @ [0x22]"

fun joinComma :: "jsstring list \<Rightarrow> jsstring" where
  "joinComma [] = []"
| "joinComma [x] = x"
| "joinComma (x # y # xs) = x @ 0x2C # joinComma (y # xs)"

fun JSON_stringify :: "json \<Rightarrow> jsstring" where
  "JSON_stringify JNull = js ''null''"
| "JSON_stringify (JBool b) = (if b then js ''true'' else js ''false'')"
| "JSON_stringify (JNumber t) = t"
| "JSON_stringify (JString s) = QuoteJSONString s"
| "JSON_stringify (JArray vs) = 0x5B # joinComma (map JSON_stringify vs) @ [0x5D]"
| "JSON_stringify (JObject kvs) =
     0x7B # joinComma (map (\<lambda>kv. QuoteJSONString (fst kv) @ 0x3A # JSON_stringify (snd kv)) kvs)
       @ [0x7D]"

text \<open>A note as the JavaScript object \<open>{id, title, content, lastEdited}\<close>.\<close>

definition noteObject :: "Note \<Rightarrow> json" where
  "noteObject n =
     JObject [(js ''id'', JString (note_id n)), (js ''title'', JString (title n)),
              (js ''content'', JString (content n)), (js ''lastEdited'', JString (lastEdited n))]"

definition notesValue :: "Note list \<Rightarrow> json" where
  "notesValue ns = JArray (map noteObject ns)"

text \<open>Reading a value as a collection of notes: the inverse of \<open>notesValue\<close>.\<close>

definition objectNote :: "json \<Rightarrow> Note option" where
  "objectNote v =
     (case v of
        JObject [(k1, JString i), (k2, JString t), (k3, JString c), (k4, JString e)] \<Rightarrow>
          if k1 = js ''id'' \<and> k2 = js ''title'' \<and> k3 = js ''content'' \<and> k4 = js ''lastEdited''
          then Some \<lparr>title = t, content = c, note_id = i, lastEdited = e\<rparr>
          else None
      | _ \<Rightarrow> None)"

fun allSome :: "'a option list \<Rightarrow> 'a list option" where
  "allSome [] = Some []"
| "allSome (x # xs) =
     (case x of None \<Rightarrow> None
      | Some y \<Rightarrow> (case allSome xs of None \<Rightarrow> None | Some ys \<Rightarrow> Some (y # ys)))"

definition valueNotes :: "json \<Rightarrow> Note list option" where
  "valueNotes v = (case v of JArray vs \<Rightarrow> allSome (map objectNote vs) | _ \<Rightarrow> None)"

section \<open>Persistence\<close>

text \<open>
  \<open>localStorage\<close>: the stored pairs, in the order of their keys' creation. \<open>setItem\<close>
  raises \<open>QuotaExceededError\<close> when the new contents would exceed the quota of the
  origin, which the browser fixes; it is the parameter \<open>quota\<close>, in code units.
\<close>

type_synonym storage = "(jsstring \<times> jsstring) list"

definition getItem :: "storage \<Rightarrow> jsstring \<Rightarrow> jsstring option" where
  "getItem stg k = map_of stg k"

definition usage :: "storage \<Rightarrow> nat" where
  "usage stg = sum_list (map (\<lambda>kv. length (fst kv) + length (snd kv)) stg)"

definition putItem :: "storage \<Rightarrow> jsstring \<Rightarrow> jsstring \<Rightarrow> storage" where
  "putItem stg k v =
     (if k \<in> fst ` set stg then map (\<lambda>kv. if fst kv = k then (k, v) else kv) stg
      else stg @ [(k, v)])"

definition setItem :: "nat \<Rightarrow> storage \<Rightarrow> jsstring \<Rightarrow> jsstring \<Rightarrow> js_error + storage" where
  "setItem quota stg k v =
     (if usage (putItem stg k v) > quota then Inl QuotaExceededError
      else Inr (putItem stg k v))"

definition storageKey :: jsstring where
  "storageKey = js ''noteease-notes''"

text \<open>The initialiser of the \<open>notes\<close> state: what the component starts from.\<close>

definition load :: "storage \<Rightarrow> js_error + json" where
  "load stg =
     (case getItem stg storageKey of
        None \<Rightarrow> Inr (JArray [])
      | Some saved \<Rightarrow> if saved \<noteq> [] then JSON_parse saved else Inr (JArray []))"

text \<open>The effect with dependency \<open>[notes]\<close>.\<close>

definition persist :: "nat \<Rightarrow> Note list \<Rightarrow> storage \<Rightarrow> js_error + storage" where
  "persist quota ns stg = setItem quota stg storageKey (JSON_stringify (notesValue ns))"

section \<open>Auxiliary definitions for the proofs\<close>

text \<open>The guard of \<open>handleSaveNote\<close>, and the note its create branch builds.\<close>

definition blank :: "jsstring \<Rightarrow> jsstring \<Rightarrow> bool" where
  "blank t c \<longleftrightarrow> trim t = [] \<and> trim c = []"

definition newNote :: "int \<Rightarrow> (nat \<Rightarrow> jsstring) \<Rightarrow> jsstring \<Rightarrow> jsstring \<Rightarrow> Note" where
  "newNote now clock t c =
     \<lparr>title = orUntitled (trim t), content = trim c, note_id = toString now,
      lastEdited = clock 0\<rparr>"

text \<open>Concrete notes and states, used to evaluate the handlers.\<close>

definition clock0 :: "nat \<Rightarrow> jsstring" where
  "clock0 k = js ''2024-05-01T10:00:00.000Z''"

definition noteA :: Note where
  "noteA = \<lparr>title = js ''A'', content = js ''a'', note_id = js ''1711958400000'',
            lastEdited = js ''2024-04-01T08:00:00.000Z''\<rparr>"

definition noteB :: Note where
  "noteB = \<lparr>title = js ''B'', content = js ''b'', note_id = js ''1712044800000'',
            lastEdited = js ''2024-04-02T08:00:00.000Z''\<rparr>"

definition viewingB :: app_state where
  "viewingB = mount 1024 [noteB, noteA]"

definition editingA :: app_state where
  "editingA = exec [SelectNote (js ''1711958400000''), EditNote] viewingB"

text \<open>
  A state between two user events: the selection effect has nothing left to do, and the
  selection, when there is one, names a note of the collection.
\<close>

definition selectionValid :: "app_state \<Rightarrow> bool" where
  "selectionValid st \<longleftrightarrow>
     selectEffect st = st \<and>
     (case selectedId st of None \<Rightarrow> True | Some j \<Rightarrow> j \<in> note_id ` set (notes st))"

text \<open>The collection \<open>handleDeleteNote\<close> keeps.\<close>

definition remaining :: "jsstring \<Rightarrow> app_state \<Rightarrow> Note list" where
  "remaining i st = filter (\<lambda>n. note_id n \<noteq> i) (notes st)"

text \<open>
  A sequence of \<open>add\<close> calls, each with its clock readings and its input, and the
  \<open>Date.now()\<close> readings of the calls that pass the guard.
\<close>

fun addAll :: "(int \<times> (nat \<Rightarrow> jsstring) \<times> jsstring \<times> jsstring) list \<Rightarrow> app_state \<Rightarrow> app_state" where
  "addAll [] st = st"
| "addAll ((now, clock, t, c) # calls) st = addAll calls (add now clock t c st)"

definition accepted :: "(int \<times> (nat \<Rightarrow> jsstring) \<times> jsstring \<times> jsstring) list \<Rightarrow> int list" where
  "accepted calls = map fst (filter (\<lambda>(now, clock, t, c). \<not> blank t c) calls)"

text \<open>Every stored title is non-empty.\<close>

definition titlesOk :: "app_state \<Rightarrow> bool" where
  "titlesOk st \<longleftrightarrow> (\<forall>n \<in> set (notes st). title n \<noteq> [])"

definition blankForm :: app_state where
  "blankForm = exec [AddNote, FieldChange Title (js ''   '')] viewingB"

definition draftForm :: app_state where
  "draftForm = exec [AddNote, FieldChange Title [], FieldChange Content (js ''b'')] viewingB"

definition threeCalls :: "(int \<times> (nat \<Rightarrow> jsstring) \<times> jsstring \<times> jsstring) list" where
  "threeCalls = [(1714557600000, clock0, js ''A'', []), (1714557601000, clock0, js ''   '', []), (1714557602000, clock0, [], js ''b'')]"

definition sameTick :: "(int \<times> (nat \<Rightarrow> jsstring) \<times> jsstring \<times> jsstring) list" where
  "sameTick = [(1714557600000, clock0, js ''A'', []), (1714557600000, clock0, js ''B'', [])]"

definition firstNote :: "command list" where
  "firstNote =
     [AddNote, FieldChange Title [], FieldChange Content (js ''b''), SaveNote 1714557602000 clock0]"

definition groceries :: Note where
  "groceries = \<lparr>title = js ''Groceries'', content = js ''Milk, eggs'',
                note_id = js ''1712131200000'', lastEdited = js ''2024-04-03T08:00:00.000Z''\<rparr>"

definition searchingMilk :: app_state where
  "searchingMilk = exec [SetSearch (js ''MILK'')] (mount 1024 [groceries, noteB, noteA])"

definition searchingGroc :: app_state where
  "searchingGroc = exec [SetSearch (js ''groc'')] (mount 1024 [groceries, noteB, noteA])"

text \<open>A note titled with the Greek capitals alpha and sigma, and the search for a sigma.\<close>

definition sigmaNote :: Note where
  "sigmaNote = \<lparr>title = [0x391, 0x3A3], content = js ''a'', note_id = js ''1712217600000'',
                lastEdited = js ''2024-04-04T08:00:00.000Z''\<rparr>"

definition searchingSigma :: app_state where
  "searchingSigma = exec [SetSearch [0x3A3]] (mount 1024 [sigmaNote])"

text \<open>Editing \<open>noteA\<close> with a blank title, and with a blank title and blank content.\<close>

definition retitlingA :: app_state where
  "retitlingA =
     exec [FieldChange Title (js ''  ''), FieldChange Content (js '' x '')] editingA"

definition blankEdit :: app_state where
  "blankEdit = exec [FieldChange Title (js ''  ''), FieldChange Content []] editingA"

text \<open>The text \<open>JSON.stringify\<close> writes for the collection that holds \<open>noteA\<close>.\<close>

definition noteAText :: jsstring where
  \<open>noteAText =
     js ''[{"id":"1711958400000","title":"A","content":"a","lastEdited":"2024-04-01T08:00:00.000Z"}]''\<close>

section \<open>Number to string\<close>

lemma unat_digitChar: "d < 10 \<Longrightarrow> unat (digitChar d) = 48 + d"
proof -
  assume "d < 10"
  have "unat (of_nat (48 + d) :: code_unit) = (48 + d) mod 2 ^ LENGTH(16)"
    by (rule unat_of_nat)
  with \<open>d < 10\<close> show ?thesis by (simp add: digitChar_def del: of_nat_add)
qed

lemma fromDigits_snoc: "fromDigits (s @ [c]) = 10 * fromDigits s + (unat c - 48)"
  by (simp add: fromDigits_def)

lemma fromDigits_decimal: "fromDigits (decimal n) = n"
proof (induction n rule: decimal.induct)
  case (1 n)
  show ?case
  proof (cases "n < 10")
    case True
    then show ?thesis
      by (subst decimal.simps) (simp add: fromDigits_def unat_digitChar)
  next
    case False
    then have "fromDigits (decimal (n div 10)) = n div 10" using 1 by simp
    with False show ?thesis
      by (subst decimal.simps) (simp add: fromDigits_snoc unat_digitChar)
  qed
qed

lemma decimal_inj: "decimal m = decimal n \<Longrightarrow> m = n"
  by (metis fromDigits_decimal)

lemma decimal_no_minus: "c \<in> set (decimal n) \<Longrightarrow> c \<noteq> 0x2D"
proof (induction n rule: decimal.induct)
  case (1 n)
  have d: "digitChar k \<noteq> 0x2D" if "k < 10" for k
  proof
    assume "digitChar k = 0x2D"
    then have "unat (digitChar k) = unat (0x2D :: code_unit)" by simp
    with that show False by (simp add: unat_digitChar)
  qed
  show ?case
  proof (cases "n < 10")
    case True
    with 1(2) show ?thesis
      by (subst (asm) decimal.simps) (simp add: d)
  next
    case False
    with 1 show ?thesis
      by (subst (asm) (2) decimal.simps) (auto simp add: d)
  qed
qed

lemma decimal_nonempty: "decimal n \<noteq> []"
  by (subst decimal.simps) simp

lemma decimal_not_minus_Cons: "decimal m \<noteq> 0x2D # s"
  using decimal_no_minus [of "0x2D" m] by (cases "decimal m") auto

lemma toString_inj: "toString i = toString j \<Longrightarrow> i = j"
  unfolding toString_def
  by (auto split: if_splits dest: decimal_inj
      simp: decimal_not_minus_Cons decimal_not_minus_Cons [symmetric])

lemma inj_toString: "inj toString"
  by (rule injI) (rule toString_inj)

lemma toString_nonempty: "toString i \<noteq> []"
  by (simp add: toString_def decimal_nonempty)

lemma truthy_toString: "truthy (Some (toString i))"
  by (simp add: truthy_def toString_nonempty)

lemma orUntitled_nonempty: "orUntitled t \<noteq> []"
  by (simp add: orUntitled_def js_def)

section \<open>Saving\<close>

lemma handleSaveNote_create:
  assumes "\<not> (trim (title (editNote st)) = [] \<and> trim (content (editNote st)) = [])"
      and "isCreating st \<or> \<not> truthy (selectedId st)"
  shows "handleSaveNote now clock st =
     st\<lparr>notes := newNote now clock (title (editNote st)) (content (editNote st)) # notes st,
        selectedId := Some (toString now),
        isCreating := False,
        editNote := emptyDraft\<rparr>"
proof -
  have "\<not> (truthy (selectedId st) \<and> \<not> isCreating st)" using assms(2) by blast
  with assms(1) show ?thesis
    unfolding handleSaveNote_def Let_def newNote_def by (simp only: if_False)
qed

lemma dispatch_save_create:
  assumes "\<not> (trim (title (editNote st)) = [] \<and> trim (content (editNote st)) = [])"
      and "isCreating st \<or> \<not> truthy (selectedId st)"
  shows "dispatch (SaveNote now clock) st =
     st\<lparr>notes := newNote now clock (title (editNote st)) (content (editNote st)) # notes st,
        selectedId := Some (toString now),
        isCreating := False,
        editNote := emptyDraft\<rparr>"
proof -
  have s: "setsNotes (SaveNote now clock) st" using assms(1) by simp
  show ?thesis
    unfolding dispatch_def Let_def handle.simps handleSaveNote_create[OF assms]
    using s by (simp add: selectEffect_def truthy_toString)
qed

lemma dispatch_AddNote:
  "notes (dispatch AddNote st) = notes st"
  "isCreating (dispatch AddNote st) \<or> \<not> truthy (selectedId (dispatch AddNote st))"
  "editNote (dispatch AddNote st) = emptyDraft"
  by (simp_all add: dispatch_def handleAddNote_def selectEffect_def Let_def truthy_def
      split: list.split)

lemma dispatch_FieldChange:
  "notes (dispatch (FieldChange f v) st) = notes st"
  "selectedId (dispatch (FieldChange f v) st) = selectedId st"
  "isCreating (dispatch (FieldChange f v) st) = isCreating st"
  "editNote (dispatch (FieldChange Title v) st) = (editNote st)\<lparr>title := v\<rparr>"
  "editNote (dispatch (FieldChange Content v) st) = (editNote st)\<lparr>content := v\<rparr>"
  by (simp_all add: dispatch_def handleFieldChange_def Let_def split: field.split)

lemma add_form:
  defines "s3 \<equiv> \<lambda>t c st. dispatch (FieldChange Content c) (dispatch (FieldChange Title t) (dispatch AddNote st))"
  shows "notes (s3 t c st) = notes st"
    and "isCreating (s3 t c st) \<or> \<not> truthy (selectedId (s3 t c st))"
    and "title (editNote (s3 t c st)) = t"
    and "content (editNote (s3 t c st)) = c"
  unfolding s3_def using dispatch_AddNote(2) [of st]
  by (simp_all add: dispatch_FieldChange dispatch_AddNote emptyDraft_def)

lemma dispatch_save_rejected:
  assumes "trim (title (editNote st)) = []" and "trim (content (editNote st)) = []"
  shows "dispatch (SaveNote now clock) st = st"
  using assms by (simp add: handleSaveNote_def dispatch_def)

lemma add_rejected:
  assumes "blank t c"
  shows "notes (add now clock t c st) = notes st"
proof -
  let ?s = "dispatch (FieldChange Content c) (dispatch (FieldChange Title t) (dispatch AddNote st))"
  have "dispatch (SaveNote now clock) ?s = ?s"
    using assms by (intro dispatch_save_rejected) (simp_all add: add_form blank_def)
  then show ?thesis by (simp add: add_def add_form)
qed

lemma add_accepted:
  assumes "\<not> blank t c"
  shows "notes (add now clock t c st) = newNote now clock t c # notes st"
    and "selectedId (add now clock t c st) = Some (toString now)"
proof -
  let ?s = "dispatch (FieldChange Content c) (dispatch (FieldChange Title t) (dispatch AddNote st))"
  have a: "\<not> (trim (title (editNote ?s)) = [] \<and> trim (content (editNote ?s)) = [])"
    using assms by (simp add: add_form blank_def)
  have b: "isCreating ?s \<or> \<not> truthy (selectedId ?s)" by (rule add_form(2))
  show "notes (add now clock t c st) = newNote now clock t c # notes st"
    unfolding add_def dispatch_save_create [OF a b] by (simp add: add_form)
  show "selectedId (add now clock t c st) = Some (toString now)"
    unfolding add_def dispatch_save_create [OF a b] by simp
qed

section \<open>Updating\<close>

lemma updateNotes_length: "length (updateNotes sel t c clock k ns) = length ns"
  by (induction ns arbitrary: k) simp_all

lemma updateNotes_absent:
  "sel \<notin> (\<lambda>n. Some (note_id n)) ` set ns \<Longrightarrow> updateNotes sel t c clock k ns = ns"
  by (induction ns arbitrary: k) auto

lemma updateNotes_nth:
  "i < length ns \<Longrightarrow>
   updateNotes sel t c clock k ns ! i =
     (if Some (note_id (ns ! i)) = sel
      then (ns ! i)\<lparr>title := orUntitled t, content := c,
             lastEdited := clock (k + length (filter (\<lambda>n. Some (note_id n) = sel) (take i ns)))\<rparr>
      else ns ! i)"
proof (induction ns arbitrary: i k)
  case Nil
  then show ?case by simp
next
  case (Cons n ns)
  show ?case
  proof (cases i)
    case 0
    then show ?thesis by simp
  next
    case (Suc j)
    with Cons.prems have "j < length ns" by simp
    from Cons.IH [OF this] Suc show ?thesis by simp
  qed
qed

lemma handleSaveNote_update:
  assumes "\<not> blank (title (editNote st)) (content (editNote st))"
      and "truthy (selectedId st)" and "\<not> isCreating st"
  shows "handleSaveNote now clock st =
     st\<lparr>notes := updateNotes (selectedId st) (trim (title (editNote st)))
                  (trim (content (editNote st))) clock 0 (notes st),
        editNote := emptyDraft\<rparr>"
proof -
  have "\<not> (trim (title (editNote st)) = [] \<and> trim (content (editNote st)) = [])"
    using assms(1) by (simp add: blank_def)
  moreover have "truthy (selectedId st) \<and> \<not> isCreating st" using assms(2,3) by simp
  ultimately show ?thesis
    unfolding handleSaveNote_def Let_def by (simp only: if_False if_True simp_thms)
qed

lemma selectEffect_idem: "selectEffect (selectEffect st) = selectEffect st"
  by (cases "notes st") (simp_all add: selectEffect_def truthy_def)

lemma selectEffect_notes: "notes (selectEffect st) = notes st"
  by (simp add: selectEffect_def split: list.split)

lemma dispatch_save_update:
  assumes "\<not> blank (title (editNote st)) (content (editNote st))"
      and "truthy (selectedId st)" and "\<not> isCreating st"
  shows "notes (dispatch (SaveNote now clock) st) =
     updateNotes (selectedId st) (trim (title (editNote st)))
       (trim (content (editNote st))) clock 0 (notes st)"
proof -
  have s: "setsNotes (SaveNote now clock) st" using assms(1) by (simp add: blank_def)
  show ?thesis
    unfolding dispatch_def Let_def handle.simps handleSaveNote_update [OF assms]
    using s by (simp add: selectEffect_notes)
qed

section \<open>Evaluating the example states\<close>

lemmas handler_defs =
  handleAddNote_def handleSelectNote_def handleEditNote_def handleDeleteNote_def
  handleFieldChange_def handleSidebarToggle_def handleCancel_def handleResize_def
  currentNote_def

lemma viewingB_eq:
  "viewingB = \<lparr>notes = [noteB, noteA], selectedId = Some (js ''1712044800000''), isCreating = False,
     editNote = emptyDraft, search = [], sidebarOpen = True\<rparr>"
  by (simp add: viewingB_def mount_def selectEffect_def handleResize_def truthy_def noteB_def)

lemma editingA_eq:
  "editingA = \<lparr>notes = [noteB, noteA], selectedId = Some (js ''1711958400000''), isCreating = False,
     editNote = \<lparr>title = js ''A'', content = js ''a''\<rparr>, search = [], sidebarOpen = True\<rparr>"
  by (simp add: editingA_def viewingB_eq dispatch_def handler_defs selectEffect_def truthy_def
      noteA_def noteB_def js_def)

lemma trim_examples:
  "trim (js ''A'') = js ''A''" "trim (js ''a'') = js ''a''" "trim [] = []"
  "trim (js ''   '') = []" "trim (js '' x '') = js ''x''"
  by (simp_all add: trim_def js_def isWhiteSpace_def)

section \<open>Deleting\<close>

lemma dispatch_delete:
  "dispatch (DeleteNote i) st = selectEffect (handleDeleteNote i st)"
  by (simp add: dispatch_def)

lemma handleDeleteNote_fields:
  "notes (handleDeleteNote i st) = remaining i st"
  "selectedId (handleDeleteNote i st) =
     (if selectedId st = Some i
      then (case remaining i st of [] \<Rightarrow> None | n # _ \<Rightarrow> Some (note_id n))
      else selectedId st)"
  "isCreating (handleDeleteNote i st) = False"
  "editNote (handleDeleteNote i st) = editNote st"
  by (simp_all add: handleDeleteNote_def remaining_def Let_def)

lemma selectEffect_selectedId:
  "selectedId (selectEffect st) =
     (case notes st of [] \<Rightarrow> None
      | n # _ \<Rightarrow> if truthy (selectedId st) then selectedId st else Some (note_id n))"
  by (simp add: selectEffect_def split: list.split)

lemma delete_selected:
  assumes "selectedId st = Some i"
  shows "selectedId (dispatch (DeleteNote i) st) =
     (case remaining i st of [] \<Rightarrow> None | n # _ \<Rightarrow> Some (note_id n))"
  using assms
  by (simp add: dispatch_delete selectEffect_selectedId handleDeleteNote_fields truthy_def
      split: list.split)

lemma delete_last_shows_empty:
  assumes "remaining i st = []"
  shows "MainArea (dispatch (DeleteNote i) st) = NoNotes"
proof -
  have "notes (handleDeleteNote i st) = []" using assms by (simp add: handleDeleteNote_fields)
  then have "dispatch (DeleteNote i) st =
      (handleDeleteNote i st)\<lparr>selectedId := None, isCreating := False, editNote := emptyDraft\<rparr>"
    by (simp add: dispatch_delete selectEffect_def)
  then show ?thesis
    by (simp add: MainArea_def truthy_def currentNote_def \<open>notes (handleDeleteNote i st) = []\<close>)
qed

lemma delete_other_valid:
  assumes "selectedId st \<noteq> Some i" and "selectionValid st"
  shows "selectedId (dispatch (DeleteNote i) st) = selectedId st"
proof (cases "selectedId st")
  case None
  with assms(2) have "notes st = []"
    by (auto simp add: selectionValid_def selectEffect_def truthy_def
        split: list.splits if_splits dest: arg_cong [where f = selectedId])
  with None show ?thesis
    by (simp add: dispatch_delete selectEffect_selectedId handleDeleteNote_fields remaining_def)
next
  case (Some j)
  with assms(1) have ji: "j \<noteq> i" by simp
  from Some assms(2) obtain m where m: "m \<in> set (notes st)" "note_id m = j"
    by (auto simp add: selectionValid_def)
  from assms(2) have stable: "selectedId (selectEffect st) = selectedId st"
    by (simp add: selectionValid_def)
  from m ji have "m \<in> set (remaining i st)" by (simp add: remaining_def)
  then obtain r rs where r: "remaining i st = r # rs" by (cases "remaining i st") auto
  show ?thesis
  proof (cases "truthy (selectedId st)")
    case True
    then show ?thesis using assms(1) r
      by (simp add: dispatch_delete selectEffect_selectedId handleDeleteNote_fields)
  next
    case False
    obtain h hs where h: "notes st = h # hs" using m(1) by (cases "notes st") auto
    with False stable Some have hj: "note_id h = j"
      by (simp add: selectEffect_selectedId)
    with ji h have "remaining i st = h # remaining i (st\<lparr>notes := hs\<rparr>)"
      by (simp add: remaining_def)
    with r have "note_id r = j" using hj by simp
    then show ?thesis using assms(1) r False Some
      by (simp add: dispatch_delete selectEffect_selectedId handleDeleteNote_fields)
  qed
qed

section \<open>Sequences of commands\<close>

lemma add_ids:
  "map note_id (notes (add now clock t c st)) =
     (if blank t c then [] else [toString now]) @ map note_id (notes st)"
  by (simp add: add_rejected add_accepted newNote_def)

lemma addAll_ids:
  "map note_id (notes (addAll calls st)) =
     rev (map toString (accepted calls)) @ map note_id (notes st)"
proof (induction calls arbitrary: st)
  case Nil
  then show ?case by (simp add: accepted_def)
next
  case (Cons call calls)
  obtain now clock t c where call: "call = (now, clock, t, c)" by (cases call) auto
  show ?case
    unfolding call addAll.simps Cons.IH add_ids by (simp add: accepted_def)
qed

lemma mount_empty_notes: "notes (mount w []) = []"
  by (simp add: mount_def selectEffect_def handleResize_def)

lemma updateNotes_titles:
  "\<forall>n \<in> set ns. title n \<noteq> [] \<Longrightarrow> \<forall>n \<in> set (updateNotes sel t c clock k ns). title n \<noteq> []"
  by (induction ns arbitrary: k) (simp_all add: orUntitled_nonempty)

lemma handleSaveNote_notes:
  "notes (handleSaveNote now clock st) = notes st \<or>
   notes (handleSaveNote now clock st) =
     updateNotes (selectedId st) (trim (title (editNote st))) (trim (content (editNote st)))
       clock 0 (notes st) \<or>
   notes (handleSaveNote now clock st) =
     newNote now clock (title (editNote st)) (content (editNote st)) # notes st"
  by (simp add: handleSaveNote_def Let_def newNote_def)

lemma handle_titlesOk: "titlesOk st \<Longrightarrow> titlesOk (handle cmd st)"
proof (cases cmd)
  case (SaveNote now clock)
  assume ok: "titlesOk st"
  then have old: "\<forall>n \<in> set (notes st). title n \<noteq> []" by (simp add: titlesOk_def)
  have "\<forall>n \<in> set (notes (handleSaveNote now clock st)). title n \<noteq> []"
    using handleSaveNote_notes [of now clock st]
  proof (elim disjE)
    assume "notes (handleSaveNote now clock st) = notes st"
    with old show ?thesis by simp
  next
    assume "notes (handleSaveNote now clock st) =
      updateNotes (selectedId st) (trim (title (editNote st))) (trim (content (editNote st)))
        clock 0 (notes st)"
    with updateNotes_titles [OF old] show ?thesis by simp
  next
    assume "notes (handleSaveNote now clock st) =
      newNote now clock (title (editNote st)) (content (editNote st)) # notes st"
    with old show ?thesis by (simp add: newNote_def orUntitled_nonempty)
  qed
  then show ?thesis unfolding SaveNote by (simp add: titlesOk_def)
next
  case (DeleteNote i)
  assume "titlesOk st"
  then show ?thesis
    unfolding DeleteNote by (simp add: titlesOk_def handleDeleteNote_fields remaining_def)
qed (simp_all add: titlesOk_def handler_defs split: option.split field.split)

lemma dispatch_titlesOk: "titlesOk st \<Longrightarrow> titlesOk (dispatch cmd st)"
  using handle_titlesOk [of st cmd]
  by (simp add: dispatch_def Let_def titlesOk_def selectEffect_notes)

lemma exec_titlesOk: "titlesOk st \<Longrightarrow> titlesOk (exec cmds st)"
  by (induction cmds arbitrary: st) (simp_all add: dispatch_titlesOk)

lemma blankForm_eq:
  "blankForm = \<lparr>notes = [noteB, noteA], selectedId = Some (js ''1712044800000''), isCreating = True,
     editNote = \<lparr>title = js ''   '', content = []\<rparr>, search = [], sidebarOpen = True\<rparr>"
  by (simp add: blankForm_def viewingB_eq dispatch_def handler_defs selectEffect_def truthy_def
      noteA_def noteB_def js_def emptyDraft_def)

lemma draftForm_eq:
  "draftForm = \<lparr>notes = [noteB, noteA], selectedId = Some (js ''1712044800000''), isCreating = True,
     editNote = \<lparr>title = [], content = js ''b''\<rparr>, search = [], sidebarOpen = True\<rparr>"
  by (simp add: draftForm_def viewingB_eq dispatch_def handler_defs selectEffect_def truthy_def
      noteA_def noteB_def js_def emptyDraft_def)

lemma blank_examples:
  "blank (js ''   '') []" "\<not> blank (js ''A'') []" "\<not> blank [] (js ''b'')"
  "\<not> blank (js ''B'') []" "\<not> blank (js ''A'') (js ''a'')"
  by (simp_all add: blank_def trim_def js_def isWhiteSpace_def)

lemma decimal_examples:
  "toString 1714557600000 = js ''1714557600000''" "toString 1714557602000 = js ''1714557602000''"
  by (simp_all add: toString_def decimal.simps digitChar_def js_def)

lemma selectionValid_viewingB: "selectionValid viewingB"
  by (simp add: selectionValid_def viewingB_eq selectEffect_def truthy_def js_def noteB_def)

lemma accepted_examples:
  "accepted threeCalls = [1714557600000, 1714557602000]" "accepted sameTick = [1714557600000, 1714557600000]"
  by (simp_all add: accepted_def threeCalls_def sameTick_def blank_examples)

lemma exec_firstNote:
  "notes (exec firstNote (mount 1024 [])) =
     [\<lparr>title = js ''(Untitled)'', content = js ''b'', note_id = js ''1714557602000'', lastEdited = clock0 0\<rparr>]"
proof -
  have t: "trim [] = []" "trim (js ''b'') = js ''b''"
    by (simp_all add: trim_def js_def isWhiteSpace_def)
  have "exec firstNote (mount 1024 []) = add 1714557602000 clock0 [] (js ''b'') (mount 1024 [])"
    by (simp add: firstNote_def add_def)
  then show ?thesis
    using add_accepted(1) [OF blank_examples(3), of 1714557602000 clock0 "mount 1024 []"]
    by (simp add: newNote_def orUntitled_def t decimal_examples mount_empty_notes)
qed

section \<open>Searching\<close>

lemma startsWith_prefix: "startsWith s q \<longleftrightarrow> prefix q s"
  by (induction s q rule: startsWith.induct) auto

lemma js_includes_sublist: "js_includes s q \<longleftrightarrow> sublist q s"
  by (induction s) (simp_all add: startsWith_prefix sublist_Cons_right)

lemma js_includes_iff: "js_includes s q \<longleftrightarrow> (\<exists>before after. s = before @ q @ after)"
  by (simp add: js_includes_sublist sublist_def)

section \<open>Serialising and parsing\<close>

lemma unat_of_nat_small: "k < 65536 \<Longrightarrow> unat (of_nat k :: code_unit) = k"
  by (simp add: unat_of_nat)

lemma hexDigit_value: "d < 16 \<Longrightarrow> hexValue (hexDigit d) = Some d"
proof (cases "d < 10")
  case True
  define w :: code_unit where "w = of_nat (48 + d)"
  have u: "unat w = 48 + d" unfolding w_def using True by (intro unat_of_nat_small) simp
  have "hexDigit d = w" using True by (simp add: hexDigit_def w_def del: of_nat_add)
  moreover have "hexValue w = Some d"
    using True u by (simp add: hexValue_def word_le_nat_alt)
  ultimately show ?thesis by simp
next
  case False
  assume d: "d < 16"
  define w :: code_unit where "w = of_nat (97 + (d - 10))"
  have u: "unat w = 87 + d" unfolding w_def using False d
    by (subst unat_of_nat_small) simp_all
  have "hexDigit d = w" using False by (simp add: hexDigit_def w_def del: of_nat_add)
  moreover have "hexValue w = Some d"
    using False d u by (simp add: hexValue_def word_le_nat_alt)
  ultimately show ?thesis by simp
qed

lemma hex_recompose:
  "((u div 4096 * 16 + u div 256 mod 16) * 16 + u div 16 mod 16) * 16 + u mod 16 = (u::nat)"
proof -
  have a: "u div 256 = u div 16 div 16" and b: "u div 4096 = u div 256 div 16"
    by (simp_all add: div_mult2_eq [symmetric])
  have "u = u div 16 * 16 + u mod 16" by simp
  also have "u div 16 = u div 256 * 16 + u div 16 mod 16" unfolding a by simp
  also have "u div 256 = u div 4096 * 16 + u div 256 mod 16" unfolding b by simp
  finally show ?thesis by simp
qed

lemma parseChars_UnicodeEscape:
  "parseChars (UnicodeEscape c @ t) = consChar c (parseChars t)"
proof -
  have "unat c < 2 ^ LENGTH(16)" by (rule unsigned_less)
  then have "unat c < 65536" by simp
  then have a: "unat c div 4096 < 16" "unat c div 256 mod 16 < 16" "unat c div 16 mod 16 < 16"
    "unat c mod 16 < 16" by simp_all
  have h: "hexValue (hexDigit (unat c div 4096)) = Some (unat c div 4096)"
    "hexValue (hexDigit (unat c div 256 mod 16)) = Some (unat c div 256 mod 16)"
    "hexValue (hexDigit (unat c div 16 mod 16)) = Some (unat c div 16 mod 16)"
    "hexValue (hexDigit (unat c mod 16)) = Some (unat c mod 16)"
    using a by (simp_all only: hexDigit_value)
  have "parseChars (UnicodeEscape c @ t) =
      consChar (of_nat (((unat c div 4096 * 16 + unat c div 256 mod 16) * 16
        + unat c div 16 mod 16) * 16 + unat c mod 16)) (parseChars t)"
    unfolding UnicodeEscape_def by (simp add: h del: of_nat_add of_nat_mult)
  then show ?thesis by (simp only: hex_recompose of_nat_unat ucast_id)
qed

lemma parseChars_plain:
  "\<not> c < 0x20 \<Longrightarrow> c \<noteq> 0x22 \<Longrightarrow> c \<noteq> 0x5C \<Longrightarrow> parseChars (c # t) = consChar c (parseChars t)"
  by simp

lemma surrogate_plain:
  assumes "isLeadingSurrogate c \<or> isTrailingSurrogate c"
  shows "\<not> c < 0x20 \<and> c \<noteq> 0x22 \<and> c \<noteq> 0x5C"
  using assms
  by (auto simp add: isLeadingSurrogate_def isTrailingSurrogate_def word_le_nat_alt
      word_less_nat_alt)

lemma parseChars_surrogate:
  "isLeadingSurrogate c \<or> isTrailingSurrogate c \<Longrightarrow>
   parseChars (c # t) = consChar c (parseChars t)"
  using surrogate_plain [of c] by (intro parseChars_plain) simp_all

lemma parseChars_escapeUnit:
  "parseChars (escapeUnit c @ t) = consChar c (parseChars t)"
proof -
  let ?special = "c = 0x08 \<or> c = 0x09 \<or> c = 0x0A \<or> c = 0x0C \<or> c = 0x0D \<or> c = 0x22 \<or> c = 0x5C"
  let ?escaped = "c < 0x20 \<or> isLeadingSurrogate c \<or> isTrailingSurrogate c"
  consider (bs) "c = 0x08" | (tab) "c = 0x09" | (lf) "c = 0x0A" | (ff) "c = 0x0C"
    | (cr) "c = 0x0D" | (quote) "c = 0x22" | (solidus) "c = 0x5C"
    | (escaped) "\<not> ?special" "?escaped" | (plain) "\<not> ?special" "\<not> ?escaped"
    by blast
  then show ?thesis
  proof cases
    case bs
    then show ?thesis by (simp add: escapeUnit_def unescape_def)
  next
    case tab
    then show ?thesis by (simp add: escapeUnit_def unescape_def)
  next
    case lf
    then show ?thesis by (simp add: escapeUnit_def unescape_def)
  next
    case ff
    then show ?thesis by (simp add: escapeUnit_def unescape_def)
  next
    case cr
    then show ?thesis by (simp add: escapeUnit_def unescape_def)
  next
    case quote
    then show ?thesis by (simp add: escapeUnit_def unescape_def)
  next
    case solidus
    then show ?thesis by (simp add: escapeUnit_def unescape_def)
  next
    case escaped
    then have "escapeUnit c = UnicodeEscape c" by (simp add: escapeUnit_def)
    then show ?thesis by (simp only: parseChars_UnicodeEscape)
  next
    case plain
    then have "escapeUnit c = [c]" by (simp add: escapeUnit_def)
    moreover have "parseChars (c # t) = consChar c (parseChars t)"
      using plain by (intro parseChars_plain) simp_all
    ultimately show ?thesis by simp
  qed
qed

lemma parseChars_quoteBody:
  "parseChars (quoteBody s @ 0x22 # rest) = Inr (s, rest)"
proof (induction s rule: quoteBody.induct)
  case 1
  show ?case by simp
next
  case (2 c)
  have "parseChars (0x22 # rest) = Inr ([], rest)" by simp
  then show ?case by (simp only: quoteBody.simps parseChars_escapeUnit consChar_def) simp
next
  case (3 c d cs)
  show ?case
  proof (cases "isLeadingSurrogate c \<and> isTrailingSurrogate d")
    case True
    then have "quoteBody (c # d # cs) @ 0x22 # rest = c # d # (quoteBody cs @ 0x22 # rest)"
      by simp
    moreover have "parseChars (c # d # (quoteBody cs @ 0x22 # rest))
        = consChar c (consChar d (parseChars (quoteBody cs @ 0x22 # rest)))"
    proof -
      have c: "isLeadingSurrogate c \<or> isTrailingSurrogate c"
        and d: "isLeadingSurrogate d \<or> isTrailingSurrogate d" using True by simp_all
      show ?thesis
        by (simp only: parseChars_surrogate [OF c] parseChars_surrogate [OF d])
    qed
    ultimately show ?thesis using 3(1) [OF True] by (simp add: consChar_def)
  next
    case False
    then have "quoteBody (c # d # cs) @ 0x22 # rest
        = escapeUnit c @ (quoteBody (d # cs) @ 0x22 # rest)"
      by (simp only: quoteBody.simps if_False append_assoc)
    then show ?thesis using 3(2) [OF False]
      by (simp only: parseChars_escapeUnit) (simp add: consChar_def)
  qed
qed

lemma parseValue_string:
  "parseValue (Suc k) (QuoteJSONString s @ rest) = Inr (JString s, rest)"
  by (simp add: QuoteJSONString_def parseChars_quoteBody)

lemma skipWS_other: "\<not> isJSONWhiteSpace c \<Longrightarrow> skipWS (c # r) = c # r"
  by (simp add: skipWS_def)

lemma not_ws:
  "\<not> isJSONWhiteSpace 0x22" "\<not> isJSONWhiteSpace 0x2C" "\<not> isJSONWhiteSpace 0x3A"
  "\<not> isJSONWhiteSpace 0x5B" "\<not> isJSONWhiteSpace 0x5D" "\<not> isJSONWhiteSpace 0x7B"
  "\<not> isJSONWhiteSpace 0x7D"
  by (simp_all add: isJSONWhiteSpace_def)

lemma setProperty_fresh:
  "k \<notin> fst ` set kvs \<Longrightarrow> \<not> isArrayIndex k \<Longrightarrow> setProperty k v kvs = kvs @ [(k, v)]"
  by (simp add: setProperty_def)

lemma note_keys:
  "\<not> isArrayIndex (js ''id'')" "\<not> isArrayIndex (js ''title'')"
  "\<not> isArrayIndex (js ''content'')" "\<not> isArrayIndex (js ''lastEdited'')"
  "js ''title'' \<noteq> js ''id''" "js ''content'' \<noteq> js ''id''" "js ''content'' \<noteq> js ''title''"
  "js ''lastEdited'' \<noteq> js ''id''" "js ''lastEdited'' \<noteq> js ''title''"
  "js ''lastEdited'' \<noteq> js ''content''"
  by (simp_all add: isArrayIndex_def js_def isDigit_def)

lemma parseMembers_string:
  assumes "k \<notin> fst ` set acc" and "\<not> isArrayIndex k"
  shows "parseMembers (Suc (Suc n)) acc
           (0x22 # quoteBody k @ 0x22 # 0x3A # 0x22 # quoteBody s @ 0x22 # 0x2C # 0x22 # rest) =
         parseMembers (Suc n) (acc @ [(k, JString s)]) (0x22 # rest)"
    and "parseMembers (Suc (Suc n)) acc
           (0x22 # quoteBody k @ 0x22 # 0x3A # 0x22 # quoteBody s @ 0x22 # 0x7D # rest) =
         Inr (JObject (acc @ [(k, JString s)]), rest)"
proof -
  have key: "parseChars (quoteBody k @ 0x22 # t) = Inr (k, t)" for t
    by (rule parseChars_quoteBody)
  have val: "parseValue (Suc n) (0x22 # quoteBody s @ 0x22 # t) = Inr (JString s, t)" for t
    using parseValue_string [of n s t] by (simp add: QuoteJSONString_def)
  show "parseMembers (Suc (Suc n)) acc
           (0x22 # quoteBody k @ 0x22 # 0x3A # 0x22 # quoteBody s @ 0x22 # 0x2C # 0x22 # rest) =
         parseMembers (Suc n) (acc @ [(k, JString s)]) (0x22 # rest)"
    by (simp add: key val skipWS_other not_ws setProperty_fresh [OF assms]
        del: parseValue.simps parseMembers.simps(2) [of n])
  show "parseMembers (Suc (Suc n)) acc
           (0x22 # quoteBody k @ 0x22 # 0x3A # 0x22 # quoteBody s @ 0x22 # 0x7D # rest) =
         Inr (JObject (acc @ [(k, JString s)]), rest)"
    by (simp add: key val skipWS_other not_ws setProperty_fresh [OF assms]
        del: parseValue.simps)
qed

lemma stringify_noteObject:
  "JSON_stringify (noteObject n) @ rest =
     0x7B # 0x22 # quoteBody (js ''id'') @ 0x22 # 0x3A # 0x22 # quoteBody (note_id n) @ 0x22 #
     0x2C # 0x22 # quoteBody (js ''title'') @ 0x22 # 0x3A # 0x22 # quoteBody (title n) @ 0x22 #
     0x2C # 0x22 # quoteBody (js ''content'') @ 0x22 # 0x3A # 0x22 # quoteBody (content n) @ 0x22 #
     0x2C # 0x22 # quoteBody (js ''lastEdited'') @ 0x22 # 0x3A # 0x22 #
       quoteBody (lastEdited n) @ 0x22 # 0x7D # rest"
  by (simp add: noteObject_def QuoteJSONString_def)

lemma parseValue_noteObject:
  "parseValue (Suc (Suc (Suc (Suc (Suc (Suc k)))))) (JSON_stringify (noteObject n) @ rest) =
     Inr (noteObject n, rest)"
proof -
  have 1: "parseMembers (Suc (Suc (Suc (Suc (Suc k))))) []
      (0x22 # quoteBody (js ''id'') @ 0x22 # 0x3A # 0x22 # quoteBody (note_id n) @ 0x22 #
        0x2C # 0x22 # t) =
      parseMembers (Suc (Suc (Suc (Suc k)))) [(js ''id'', JString (note_id n))] (0x22 # t)" for t
    using parseMembers_string(1) [of "js ''id''" "[]"] by (simp add: note_keys)
  have 2: "parseMembers (Suc (Suc (Suc (Suc k)))) [(js ''id'', JString (note_id n))]
      (0x22 # quoteBody (js ''title'') @ 0x22 # 0x3A # 0x22 # quoteBody (title n) @ 0x22 #
        0x2C # 0x22 # t) =
      parseMembers (Suc (Suc (Suc k)))
        [(js ''id'', JString (note_id n)), (js ''title'', JString (title n))] (0x22 # t)" for t
    using parseMembers_string(1) [of "js ''title''" "[(js ''id'', JString (note_id n))]"]
    by (simp add: note_keys)
  have 3: "parseMembers (Suc (Suc (Suc k)))
        [(js ''id'', JString (note_id n)), (js ''title'', JString (title n))]
      (0x22 # quoteBody (js ''content'') @ 0x22 # 0x3A # 0x22 # quoteBody (content n) @ 0x22 #
        0x2C # 0x22 # t) =
      parseMembers (Suc (Suc k))
        [(js ''id'', JString (note_id n)), (js ''title'', JString (title n)),
         (js ''content'', JString (content n))] (0x22 # t)" for t
    using parseMembers_string(1) [of "js ''content''"
        "[(js ''id'', JString (note_id n)), (js ''title'', JString (title n))]"]
    by (simp add: note_keys)
  have 4: "parseMembers (Suc (Suc k))
        [(js ''id'', JString (note_id n)), (js ''title'', JString (title n)),
         (js ''content'', JString (content n))]
      (0x22 # quoteBody (js ''lastEdited'') @ 0x22 # 0x3A # 0x22 # quoteBody (lastEdited n) @
        0x22 # 0x7D # t) = Inr (noteObject n, t)" for t
    using parseMembers_string(2) [of "js ''lastEdited''"
        "[(js ''id'', JString (note_id n)), (js ''title'', JString (title n)),
          (js ''content'', JString (content n))]"]
    by (simp add: note_keys noteObject_def)
  show ?thesis
    unfolding stringify_noteObject
    by (simp only: parseValue.simps list.case if_False if_True skipWS_other not_ws 1 2 3 4)
      (simp add: skipWS_other not_ws 1 2 3 4 del: parseMembers.simps parseValue.simps)
qed

lemma stringify_noteObject_Cons:
  "\<exists>t. JSON_stringify (noteObject n) = 0x7B # t"
  using stringify_noteObject [of n "[]"] by simp

lemma length_stringify_noteObject: "6 \<le> length (JSON_stringify (noteObject n))"
  using arg_cong [OF stringify_noteObject [of n "[]"], of length] by simp

lemma joinComma_Cons:
  "\<exists>t. joinComma (map JSON_stringify (map noteObject (n # ns))) @ u = 0x7B # t"
proof -
  obtain t where t: "JSON_stringify (noteObject n) = 0x7B # t"
    using stringify_noteObject_Cons by blast
  show ?thesis by (cases ns) (simp_all add: t)
qed

lemma length_joinComma:
  "6 * length ns \<le> length (joinComma (map JSON_stringify (map noteObject ns)))"
proof (induction ns)
  case Nil
  show ?case by simp
next
  case (Cons n ns)
  then show ?case
    using length_stringify_noteObject [of n] by (cases ns) simp_all
qed

lemma parseElements_step:
  "parseValue m s = Inr (v, 0x2C # 0x7B # t) \<Longrightarrow>
   parseElements (Suc m) acc s = parseElements m (acc @ [v]) (0x7B # t)"
  "parseValue m s = Inr (v, 0x5D # t) \<Longrightarrow>
   parseElements (Suc m) acc s = Inr (JArray (acc @ [v]), t)"
  by (simp_all add: skipWS_other not_ws)

lemma parseElements_notes:
  "ns \<noteq> [] \<Longrightarrow>
   parseElements (length ns + 6 + k) acc
     (joinComma (map JSON_stringify (map noteObject ns)) @ 0x5D # rest) =
   Inr (JArray (acc @ map noteObject ns), rest)"
proof (induction ns arbitrary: acc)
  case Nil
  then show ?case by simp
next
  case (Cons n ns)
  have fuel: "length (n # ns) + 6 + k = Suc (length ns + 6 + k)"
    by simp
  have obj: "parseValue (length ns + 6 + k) (JSON_stringify (noteObject n) @ t) =
      Inr (noteObject n, t)" for t
  proof -
    have e: "length ns + 6 + k = Suc (Suc (Suc (Suc (Suc (Suc (length ns + k))))))" by simp
    show ?thesis unfolding e by (rule parseValue_noteObject)
  qed
  show ?case
  proof (cases ns)
    case Nil
    have "parseElements (Suc (length ns + 6 + k)) acc
        (JSON_stringify (noteObject n) @ 0x5D # rest) = Inr (JArray (acc @ [noteObject n]), rest)"
      by (rule parseElements_step(2) [OF obj])
    moreover have "joinComma (map JSON_stringify (map noteObject (n # ns))) @ 0x5D # rest =
        JSON_stringify (noteObject n) @ 0x5D # rest" using Nil by simp
    moreover have "map noteObject (n # ns) = [noteObject n]" using Nil by simp
    ultimately show ?thesis unfolding fuel by (simp only:)
  next
    case (Cons m ms)
    obtain t where t: "joinComma (map JSON_stringify (map noteObject ns)) @ 0x5D # rest = 0x7B # t"
      using joinComma_Cons [of m ms "0x5D # rest"] Cons by blast
    have shape: "joinComma (map JSON_stringify (map noteObject (n # ns))) @ 0x5D # rest =
        JSON_stringify (noteObject n) @ 0x2C # 0x7B # t"
      using t Cons by simp
    have "parseElements (Suc (length ns + 6 + k)) acc
        (JSON_stringify (noteObject n) @ 0x2C # 0x7B # t) =
        parseElements (length ns + 6 + k) (acc @ [noteObject n]) (0x7B # t)"
      by (rule parseElements_step(1) [OF obj])
    also have "\<dots> = Inr (JArray ((acc @ [noteObject n]) @ map noteObject ns), rest)"
      unfolding t [symmetric] by (rule Cons.IH) (simp add: Cons)
    finally show ?thesis
      unfolding shape fuel by simp
  qed
qed

lemma parseValue_array:
  "parseValue (Suc f) (0x5B # 0x7B # t) = parseElements f [] (0x7B # t)"
  by (simp add: skipWS_other not_ws)

lemma JSON_parse_stringify_notes:
  "JSON_parse (JSON_stringify (notesValue ns)) = Inr (notesValue ns)"
proof (cases ns)
  case Nil
  have "JSON_stringify (notesValue []) = [0x5B, 0x5D]" by (simp add: notesValue_def)
  moreover have "JSON_parse [0x5B, 0x5D] = Inr (JArray [])"
    by (simp add: JSON_parse_def skipWS_def isJSONWhiteSpace_def
        parseValue.simps(2) [of "pred_numeral k" for k, folded numeral_eq_Suc])
  ultimately show ?thesis using Nil by (simp add: notesValue_def)
next
  case (Cons m ms)
  define body where "body = joinComma (map JSON_stringify (map noteObject ns))"
  have whole: "JSON_stringify (notesValue ns) = 0x5B # body @ [0x5D]"
    by (simp add: notesValue_def body_def)
  obtain t where t: "body @ [0x5D] = 0x7B # t"
    using joinComma_Cons [of m ms "[0x5D]"] Cons by (auto simp add: body_def)
  have "6 * length ns \<le> length body" unfolding body_def by (rule length_joinComma)
  moreover have "length ns = Suc (length ms)" using Cons by simp
  ultimately have "length ns + 6 \<le> 2 * length (0x5B # body @ [0x5D])" by simp
  then obtain k where k: "2 * length (0x5B # body @ [0x5D]) = length ns + 6 + k"
    using le_Suc_ex by blast
  have elems: "parseElements (length ns + 6 + k) [] (body @ [0x5D]) = Inr (JArray (map noteObject ns), [])"
    using parseElements_notes [of ns k "[]" "[]"] Cons by (simp add: body_def)
  have "parseValue (Suc (length ns + 6 + k)) (0x5B # body @ [0x5D]) =
      parseElements (length ns + 6 + k) [] (0x7B # t)"
    unfolding t by (rule parseValue_array)
  then have "parseValue (Suc (length ns + 6 + k)) (0x5B # body @ [0x5D]) =
      Inr (JArray (map noteObject ns), [])"
    using elems by (simp only: t)
  then have "JSON_parse (0x5B # body @ [0x5D]) = Inr (JArray (map noteObject ns))"
    unfolding JSON_parse_def skipWS_other [OF not_ws(4)]
    by (simp only: k Suc_eq_plus1 [symmetric]) (simp add: skipWS_def)
  then show ?thesis unfolding whole by (simp only: notesValue_def)
qed

lemma objectNote_noteObject: "objectNote (noteObject n) = Some n"
  by (simp add: objectNote_def noteObject_def)

lemma valueNotes_notesValue: "valueNotes (notesValue ns) = Some ns"
  by (induction ns) (simp_all add: valueNotes_def notesValue_def objectNote_noteObject)

lemma getItem_putItem: "getItem (putItem stg k v) k = Some v"
proof (cases "k \<in> fst ` set stg")
  case True
  then show ?thesis
    by (induction stg) (auto simp add: getItem_def putItem_def)
next
  case False
  then show ?thesis
    by (induction stg) (auto simp add: getItem_def putItem_def)
qed

lemma load_persist:
  "persist quota ns stg = Inr stg' \<Longrightarrow> load stg' = Inr (notesValue ns)"
proof -
  assume "persist quota ns stg = Inr stg'"
  then have "stg' = putItem stg storageKey (JSON_stringify (notesValue ns))"
    by (simp add: persist_def setItem_def split: if_splits)
  then have "getItem stg' storageKey = Some (JSON_stringify (notesValue ns))"
    by (simp add: getItem_putItem)
  moreover have "JSON_stringify (notesValue ns) \<noteq> []" by (simp add: notesValue_def)
  ultimately show ?thesis by (simp add: load_def JSON_parse_stringify_notes)
qed

lemma quoteBody_plain:
  "\<forall>c \<in> set s. 0x20 \<le> c \<and> c \<le> 0x7E \<and> c \<noteq> 0x22 \<and> c \<noteq> 0x5C \<Longrightarrow> quoteBody s = s"
proof (induction s rule: quoteBody.induct)
  case 1
  show ?case by simp
next
  case (2 c)
  then show ?case
    by (auto simp add: escapeUnit_def isLeadingSurrogate_def isTrailingSurrogate_def
        word_le_nat_alt word_less_nat_alt)
next
  case (3 c d cs)
  then have c: "0x20 \<le> c" "c \<le> 0x7E" "c \<noteq> 0x22" "c \<noteq> 0x5C" by simp_all
  then have e: "escapeUnit c = [c]" "\<not> isLeadingSurrogate c"
    by (auto simp add: escapeUnit_def isLeadingSurrogate_def isTrailingSurrogate_def
        word_le_nat_alt word_less_nat_alt)
  from e(2) have "\<not> (isLeadingSurrogate c \<and> isTrailingSurrogate d)" by simp
  from 3(2) [OF this] 3(3) have "quoteBody (d # cs) = d # cs" by simp
  with e show ?case by simp
qed

lemma stringify_noteA: "JSON_stringify (notesValue [noteA]) = noteAText"
proof -
  have q: "quoteBody (js ''id'') = js ''id''" "quoteBody (js ''title'') = js ''title''"
    "quoteBody (js ''content'') = js ''content''" "quoteBody (js ''lastEdited'') = js ''lastEdited''"
    "quoteBody (js ''1711958400000'') = js ''1711958400000''" "quoteBody (js ''A'') = js ''A''" "quoteBody (js ''a'') = js ''a''"
    "quoteBody (js ''2024-04-01T08:00:00.000Z'') = js ''2024-04-01T08:00:00.000Z''"
    by (rule quoteBody_plain, simp add: js_def)+
  show ?thesis
    by (simp add: notesValue_def noteObject_def noteA_def QuoteJSONString_def q)
      (simp add: js_def noteAText_def)
qed

lemma storageKey_length: "length storageKey = 14"
  by (simp add: storageKey_def js_def)

lemma noteAText_length: "length noteAText = 90"
  by (simp add: noteAText_def js_def)

section \<open>The parser's bound\<close>

lemma consChar_Inl: "consChar u res = Inl e \<longleftrightarrow> res = Inl e"
  by (simp add: consChar_def split: sum.split prod.split)

lemma consChar_Inr: "consChar u res = Inr (s, r) \<longleftrightarrow> (\<exists>s'. res = Inr (s', r) \<and> s = u # s')"
  by (auto simp add: consChar_def split: sum.split prod.split)

lemma parseChars_props:
  "(\<forall>e. parseChars cs = Inl e \<longrightarrow> e = SyntaxError) \<and>
   (\<forall>str r. parseChars cs = Inr (str, r) \<longrightarrow> length r < length cs)"
proof (induction cs rule: length_induct)
  case (1 xs)
  have ih: "\<And>ys e. length ys < length xs \<Longrightarrow> parseChars ys = Inl e \<Longrightarrow> e = SyntaxError"
    "\<And>ys str r. length ys < length xs \<Longrightarrow> parseChars ys = Inr (str, r) \<Longrightarrow> length r < length ys"
    using 1 by blast+
  have step: "(\<forall>e. consChar u (parseChars ys) = Inl e \<longrightarrow> e = SyntaxError) \<and>
      (\<forall>str r. consChar u (parseChars ys) = Inr (str, r) \<longrightarrow> length r < length xs)"
    if "length ys < length xs" for u ys
    using ih(1) [OF that] ih(2) [OF that] that
    by (auto simp add: consChar_Inl consChar_Inr)
  show ?case
  proof (cases xs)
    case Nil
    then show ?thesis by simp
  next
    case (Cons c cs)
    show ?thesis
    proof (cases "c = 0x22")
      case True
      with Cons show ?thesis by simp
    next
      case notq: False
      show ?thesis
      proof (cases "c = 0x5C")
        case False
        show ?thesis
        proof (cases "c < 0x20")
          case True
          with notq False Cons show ?thesis by simp
        next
          case nc: False
          have "parseChars xs = consChar c (parseChars cs)"
            using notq False nc Cons by simp
          with step [of cs c] Cons show ?thesis by simp
        qed
      next
        case True
        show ?thesis
        proof (cases cs)
          case Nil
          with True Cons show ?thesis by simp
        next
          case cs: (Cons e r)
          show ?thesis
          proof (cases "e = 0x75")
            case False
            show ?thesis
            proof (cases "unescape e")
              case None
              with False True Cons cs show ?thesis by simp
            next
              case (Some v)
              have "parseChars xs = consChar v (parseChars r)"
                using False True Cons cs Some by simp
              with step [of r v] Cons cs show ?thesis by simp
            qed
          next
            case u: True
            show ?thesis
            proof (cases "\<exists>h1 h2 h3 h4 r'. r = h1 # h2 # h3 # h4 # r'")
              case False
              then have "parseChars xs = Inl SyntaxError"
                using True Cons cs u by (auto split: list.splits)
              then show ?thesis by simp
            next
              case ex: True
              then obtain h1 h2 h3 h4 r' where r: "r = h1 # h2 # h3 # h4 # r'" by blast
              show ?thesis
              proof (cases "\<exists>a b c' d. hexValue h1 = Some a \<and> hexValue h2 = Some b \<and>
                  hexValue h3 = Some c' \<and> hexValue h4 = Some d")
                case False
                then have "parseChars xs = Inl SyntaxError"
                  using True Cons cs u r by (auto split: option.splits)
                then show ?thesis by simp
              next
                case hx: True
                then obtain a b c' d where h: "hexValue h1 = Some a" "hexValue h2 = Some b"
                  "hexValue h3 = Some c'" "hexValue h4 = Some d" by blast
                have "parseChars xs =
                    consChar (of_nat (((a * 16 + b) * 16 + c') * 16 + d)) (parseChars r')"
                  using True Cons cs u r h by simp
                with step [of r' "of_nat (((a * 16 + b) * 16 + c') * 16 + d)"] Cons cs r
                show ?thesis by simp
              qed
            qed
          qed
        qed
      qed
    qed
  qed
qed

lemma parseChars_error: "parseChars cs = Inl e \<Longrightarrow> e = SyntaxError"
  using parseChars_props [of cs] by blast

lemma parseChars_consumes: "parseChars cs = Inr (str, r) \<Longrightarrow> length r < length cs"
  using parseChars_props [of cs] by blast

lemma length_skipWS: "length (skipWS s) \<le> length s"
  by (simp add: skipWS_def length_dropWhile_le)

lemma skipWS_Cons: "skipWS s = d # r \<Longrightarrow> length r < length s"
  using length_skipWS [of s] by simp

lemma intPart_props:
  "intPart s = Inl e \<Longrightarrow> e = SyntaxError"
  "intPart s = Inr (t, r) \<Longrightarrow> length r < length s"
  by (auto simp add: intPart_def length_dropWhile_le less_Suc_eq_le split: list.splits if_splits)

lemma fracPart_props:
  "fracPart s = Inl e \<Longrightarrow> e = SyntaxError"
  "fracPart s = Inr (t, r) \<Longrightarrow> length r \<le> length s"
  by (auto simp add: fracPart_def length_dropWhile_le le_SucI split: list.splits if_splits)

lemma expSign_length: "expSign s = (sg, r) \<Longrightarrow> length r \<le> length s"
  by (auto simp add: expSign_def split: list.splits if_splits)

lemma expPart_props:
  "expPart s = Inl e \<Longrightarrow> e = SyntaxError"
  "expPart s = Inr (t, r) \<Longrightarrow> length r \<le> length s"
proof -
  show "expPart s = Inl e \<Longrightarrow> e = SyntaxError"
    by (auto simp add: expPart_def split: list.splits if_splits prod.splits)
  show "expPart s = Inr (t, r) \<Longrightarrow> length r \<le> length s"
  proof (cases s)
    case Nil
    assume "expPart s = Inr (t, r)"
    with Nil show ?thesis by (simp add: expPart_def)
  next
    case (Cons c cs)
    assume a: "expPart s = Inr (t, r)"
    obtain sg r1 where e: "expSign cs = (sg, r1)" by (cases "expSign cs") auto
    have "length (dropWhile isDigit r1) \<le> length cs"
      using expSign_length [OF e] length_dropWhile_le [of isDigit r1] by simp
    with a Cons e show ?thesis
      by (auto simp add: expPart_def split: if_splits)
  qed
qed

lemma parseNumber_props:
  "parseNumber s = Inl e \<Longrightarrow> e = SyntaxError"
  "parseNumber s = Inr (t, r) \<Longrightarrow> length r < length s"
proof -
  define p where "p = (case s of [] \<Rightarrow> ([], s) | c # r \<Rightarrow> if c = 0x2D then ([c], r) else ([], s))"
  obtain sg s1 where p: "p = (sg, s1)" by (cases p) auto
  have l1: "length s1 \<le> length s"
    using p by (auto simp add: p_def split: list.splits if_splits)
  have unfold: "parseNumber s =
     (case intPart s1 of
        Inl e \<Rightarrow> Inl e
      | Inr (ip, s2) \<Rightarrow>
          (case fracPart s2 of
             Inl e \<Rightarrow> Inl e
           | Inr (fp, s3) \<Rightarrow>
               (case expPart s3 of
                  Inl e \<Rightarrow> Inl e
                | Inr (ep, s4) \<Rightarrow> Inr (sg @ ip @ fp @ ep, s4))))"
    unfolding parseNumber_def p_def [symmetric] p by simp
  show "parseNumber s = Inl e \<Longrightarrow> e = SyntaxError"
    unfolding unfold
    by (auto split: sum.splits prod.splits
        dest: intPart_props(1) fracPart_props(1) expPart_props(1))
  show "parseNumber s = Inr (t, r) \<Longrightarrow> length r < length s"
    unfolding unfold using l1
    by (auto split: sum.splits prod.splits
        dest!: intPart_props(2) fracPart_props(2) expPart_props(2))
qed

lemma startsWith_length: "startsWith s q \<Longrightarrow> length q \<le> length s"
  by (simp add: startsWith_prefix prefix_length_le)

lemma parse_consumes:
  "(\<forall>s v r. parseValue n s = Inr (v, r) \<longrightarrow> length r < length s) \<and>
   (\<forall>acc s v r. parseElements n acc s = Inr (v, r) \<longrightarrow> length r < length s) \<and>
   (\<forall>acc s v r. parseMembers n acc s = Inr (v, r) \<longrightarrow> length r < length s)"
proof (induction n)
  case 0
  show ?case by simp
next
  case (Suc n)
  then have ihV: "\<And>s v r. parseValue n s = Inr (v, r) \<Longrightarrow> length r < length s"
    and ihE: "\<And>acc s v r. parseElements n acc s = Inr (v, r) \<Longrightarrow> length r < length s"
    and ihM: "\<And>acc s v r. parseMembers n acc s = Inr (v, r) \<Longrightarrow> length r < length s"
    by blast+
  have V: "length r < length s" if a: "parseValue (Suc n) s = Inr (v, r)" for s v r
  proof (cases s)
    case Nil
    with a show ?thesis by simp
  next
    case (Cons c cs)
    consider (str) "c = 0x22" | (arr) "c \<noteq> 0x22" "c = 0x5B" | (obj) "c \<noteq> 0x22" "c \<noteq> 0x5B" "c = 0x7B"
      | (num) "c \<noteq> 0x22" "c \<noteq> 0x5B" "c \<noteq> 0x7B" "c = 0x2D \<or> isDigit c"
      | (lit) "c \<noteq> 0x22" "c \<noteq> 0x5B" "c \<noteq> 0x7B" "\<not> (c = 0x2D \<or> isDigit c)"
      by blast
    then show ?thesis
    proof cases
      case str
      with a Cons show ?thesis
        by (auto split: sum.splits prod.splits dest: parseChars_consumes)
    next
      case arr
      show ?thesis
      proof (cases "skipWS cs")
        case Nil
        with a Cons arr show ?thesis by simp
      next
        case sk: (Cons d r')
        show ?thesis
        proof (cases "d = 0x5D")
          case True
          with a Cons arr sk skipWS_Cons [OF sk] show ?thesis by auto
        next
          case False
          with a Cons arr sk have "parseElements n [] (d # r') = Inr (v, r)" by simp
          from ihE [OF this] skipWS_Cons [OF sk] Cons show ?thesis by simp
        qed
      qed
    next
      case obj
      show ?thesis
      proof (cases "skipWS cs")
        case Nil
        with a Cons obj show ?thesis by simp
      next
        case sk: (Cons d r')
        show ?thesis
        proof (cases "d = 0x7D")
          case True
          with a Cons obj sk skipWS_Cons [OF sk] show ?thesis by auto
        next
          case False
          with a Cons obj sk have "parseMembers n [] (d # r') = Inr (v, r)" by simp
          from ihM [OF this] skipWS_Cons [OF sk] Cons show ?thesis by simp
        qed
      qed
    next
      case num
      with a Cons have "\<exists>t. parseNumber s = Inr (t, r)"
        by (auto split: sum.splits prod.splits)
      then show ?thesis using parseNumber_props(2) by blast
    next
      case lit
      with a Cons have "(startsWith s (js ''true'') \<and> r = drop 4 s) \<or>
          (startsWith s (js ''false'') \<and> r = drop 5 s) \<or>
          (startsWith s (js ''null'') \<and> r = drop 4 s)"
        by (auto split: if_splits)
      then show ?thesis
        by (auto dest!: startsWith_length simp add: js_def)
    qed
  qed
  have E: "length r < length s" if a: "parseElements (Suc n) acc s = Inr (v, r)" for acc s v r
  proof -
    from a obtain w r0 where pv: "parseValue n s = Inr (w, r0)"
      by (auto split: sum.splits prod.splits)
    from ihV [OF pv] have l0: "length r0 < length s" .
    from a pv obtain d r1 where sk: "skipWS r0 = d # r1"
      by (cases "skipWS r0") auto
    from skipWS_Cons [OF sk] have l1: "length r1 < length r0" .
    show ?thesis
    proof (cases "d = 0x5D")
      case True
      with a pv sk l0 l1 show ?thesis by auto
    next
      case False
      with a pv sk have "parseElements n (acc @ [w]) (skipWS r1) = Inr (v, r)"
        by (auto split: if_splits)
      from ihE [OF this] length_skipWS [of r1] l0 l1 show ?thesis by simp
    qed
  qed
  have M: "length r < length s" if a: "parseMembers (Suc n) acc s = Inr (v, r)" for acc s v r
  proof -
    from a obtain cs where s: "s = 0x22 # cs"
      by (cases s) (auto split: if_splits)
    from a s obtain key r0 where pc: "parseChars cs = Inr (key, r0)"
      by (auto split: sum.splits prod.splits)
    from parseChars_consumes [OF pc] have l0: "length r0 < length cs" .
    from a s pc obtain r1 where sk: "skipWS r0 = 0x3A # r1"
      by (cases "skipWS r0") (auto split: if_splits)
    from skipWS_Cons [OF sk] have l1: "length r1 < length r0" .
    from a s pc sk obtain w r2 where pv: "parseValue n (skipWS r1) = Inr (w, r2)"
      by (auto split: sum.splits prod.splits)
    from ihV [OF pv] length_skipWS [of r1] have l2: "length r2 < length r1" by simp
    from a s pc sk pv obtain d r3 where sk2: "skipWS r2 = d # r3"
      by (cases "skipWS r2") auto
    from skipWS_Cons [OF sk2] have l3: "length r3 < length r2" .
    show ?thesis
    proof (cases "d = 0x7D")
      case True
      with a s pc sk pv sk2 l0 l1 l2 l3 show ?thesis by auto
    next
      case False
      with a s pc sk pv sk2
      have "parseMembers n (setProperty key w acc) (skipWS r3) = Inr (v, r)"
        by (auto split: if_splits)
      from ihM [OF this] length_skipWS [of r3] s l0 l1 l2 l3 show ?thesis by simp
    qed
  qed
  from V E M show ?case by blast
qed

lemma parseValue_consumes: "parseValue n s = Inr (v, r) \<Longrightarrow> length r < length s"
  using parse_consumes [of n] by blast

lemma parse_errors:
  "(\<forall>s e. 2 * length s < n \<longrightarrow> parseValue n s = Inl e \<longrightarrow> e = SyntaxError) \<and>
   (\<forall>acc s e. 2 * length s + 1 < n \<longrightarrow> parseElements n acc s = Inl e \<longrightarrow> e = SyntaxError) \<and>
   (\<forall>acc s e. 2 * length s + 1 < n \<longrightarrow> parseMembers n acc s = Inl e \<longrightarrow> e = SyntaxError)"
proof (induction n)
  case 0
  show ?case by simp
next
  case (Suc n)
  then have ihV: "\<And>s e. 2 * length s < n \<Longrightarrow> parseValue n s = Inl e \<Longrightarrow> e = SyntaxError"
    and ihE: "\<And>acc s e. 2 * length s + 1 < n \<Longrightarrow> parseElements n acc s = Inl e \<Longrightarrow>
        e = SyntaxError"
    and ihM: "\<And>acc s e. 2 * length s + 1 < n \<Longrightarrow> parseMembers n acc s = Inl e \<Longrightarrow>
        e = SyntaxError"
    by blast+
  have V: "e = SyntaxError"
    if f: "2 * length s < Suc n" and a: "parseValue (Suc n) s = Inl e" for s e
  proof (cases s)
    case Nil
    with a show ?thesis by simp
  next
    case (Cons c cs)
    consider (str) "c = 0x22" | (arr) "c \<noteq> 0x22" "c = 0x5B" | (obj) "c \<noteq> 0x22" "c \<noteq> 0x5B" "c = 0x7B"
      | (num) "c \<noteq> 0x22" "c \<noteq> 0x5B" "c \<noteq> 0x7B" "c = 0x2D \<or> isDigit c"
      | (lit) "c \<noteq> 0x22" "c \<noteq> 0x5B" "c \<noteq> 0x7B" "\<not> (c = 0x2D \<or> isDigit c)"
      by blast
    then show ?thesis
    proof cases
      case str
      with a Cons show ?thesis
        by (auto split: sum.splits prod.splits dest: parseChars_error)
    next
      case arr
      show ?thesis
      proof (cases "skipWS cs")
        case Nil
        with a Cons arr show ?thesis by simp
      next
        case sk: (Cons d r')
        show ?thesis
        proof (cases "d = 0x5D")
          case True
          with a Cons arr sk show ?thesis by simp
        next
          case False
          with a Cons arr sk have p: "parseElements n [] (d # r') = Inl e" by simp
          have "2 * length (d # r') + 1 < n"
            using f Cons length_skipWS [of cs] sk by simp
          from ihE [OF this p] show ?thesis .
        qed
      qed
    next
      case obj
      show ?thesis
      proof (cases "skipWS cs")
        case Nil
        with a Cons obj show ?thesis by simp
      next
        case sk: (Cons d r')
        show ?thesis
        proof (cases "d = 0x7D")
          case True
          with a Cons obj sk show ?thesis by simp
        next
          case False
          with a Cons obj sk have p: "parseMembers n [] (d # r') = Inl e" by simp
          have "2 * length (d # r') + 1 < n"
            using f Cons length_skipWS [of cs] sk by simp
          from ihM [OF this p] show ?thesis .
        qed
      qed
    next
      case num
      with a Cons have "parseNumber s = Inl e"
        by (auto split: sum.splits prod.splits)
      then show ?thesis by (rule parseNumber_props(1))
    next
      case lit
      with a Cons show ?thesis by (auto split: if_splits)
    qed
  qed
  have E: "e = SyntaxError"
    if f: "2 * length s + 1 < Suc n" and a: "parseElements (Suc n) acc s = Inl e" for acc s e
  proof (cases "parseValue n s")
    case (Inl e')
    with a have "e' = e" by simp
    moreover have "e' = SyntaxError" using ihV [OF _ Inl] f by simp
    ultimately show ?thesis by simp
  next
    case (Inr p)
    obtain w r0 where pv: "parseValue n s = Inr (w, r0)" using Inr by (cases p) auto
    from parseValue_consumes [OF pv] have l0: "length r0 < length s" .
    show ?thesis
    proof (cases "skipWS r0")
      case Nil
      with a pv show ?thesis by simp
    next
      case (Cons d r1)
      from skipWS_Cons [OF Cons] have l1: "length r1 < length r0" .
      show ?thesis
      proof (cases "d = 0x2C")
        case False
        with a pv Cons show ?thesis by (auto split: if_splits)
      next
        case True
        with a pv Cons have p: "parseElements n (acc @ [w]) (skipWS r1) = Inl e" by simp
        have "2 * length (skipWS r1) + 1 < n"
          using f l0 l1 length_skipWS [of r1] by simp
        from ihE [OF this p] show ?thesis .
      qed
    qed
  qed
  have M: "e = SyntaxError"
    if f: "2 * length s + 1 < Suc n" and a: "parseMembers (Suc n) acc s = Inl e" for acc s e
  proof (cases "\<exists>cs. s = 0x22 # cs")
    case False
    with a show ?thesis by (cases s) (auto split: if_splits)
  next
    case True
    then obtain cs where s: "s = 0x22 # cs" by blast
    show ?thesis
    proof (cases "parseChars cs")
      case (Inl e')
      with a s have "e' = e" by simp
      with parseChars_error [OF Inl] show ?thesis by simp
    next
      case (Inr p)
      obtain key r0 where pc: "parseChars cs = Inr (key, r0)" using Inr by (cases p) auto
      from parseChars_consumes [OF pc] have l0: "length r0 < length cs" .
      show ?thesis
      proof (cases "\<exists>r1. skipWS r0 = 0x3A # r1")
        case False
        with a s pc show ?thesis by (cases "skipWS r0") (auto split: if_splits)
      next
        case True
        then obtain r1 where sk: "skipWS r0 = 0x3A # r1" by blast
        from skipWS_Cons [OF sk] have l1: "length r1 < length r0" .
        show ?thesis
        proof (cases "parseValue n (skipWS r1)")
          case (Inl e')
          with a s pc sk have "e' = e" by simp
          moreover have "e' = SyntaxError"
            using ihV [OF _ Inl] f s l0 l1 length_skipWS [of r1] by simp
          ultimately show ?thesis by simp
        next
          case (Inr q)
          obtain w r2 where pv: "parseValue n (skipWS r1) = Inr (w, r2)"
            using Inr by (cases q) auto
          from parseValue_consumes [OF pv] length_skipWS [of r1]
          have l2: "length r2 < length r1" by simp
          show ?thesis
          proof (cases "skipWS r2")
            case Nil
            with a s pc sk pv show ?thesis by simp
          next
            case (Cons d r3)
            from skipWS_Cons [OF Cons] have l3: "length r3 < length r2" .
            show ?thesis
            proof (cases "d = 0x2C")
              case False
              with a s pc sk pv Cons show ?thesis by (auto split: if_splits)
            next
              case True
              with a s pc sk pv Cons
              have p: "parseMembers n (setProperty key w acc) (skipWS r3) = Inl e" by simp
              have "2 * length (skipWS r3) + 1 < n"
                using f s l0 l1 l2 l3 length_skipWS [of r3] by simp
              from ihM [OF this p] show ?thesis .
            qed
          qed
        qed
      qed
    qed
  qed
  from V E M show ?case by blast
qed

lemma JSON_parse_error: "JSON_parse s = Inl e \<Longrightarrow> e = SyntaxError"
proof -
  assume a: "JSON_parse s = Inl e"
  have f: "2 * length (skipWS s) < 2 * length s + 1" using length_skipWS [of s] by simp
  show ?thesis
  proof (cases "parseValue (2 * length s + 1) (skipWS s)")
    case (Inl e')
    with a have "e' = e" by (simp add: JSON_parse_def)
    moreover from parse_errors [of "2 * length s + 1"] f Inl have "e' = SyntaxError" by blast
    ultimately show ?thesis by simp
  next
    case (Inr p)
    with a show ?thesis by (auto simp add: JSON_parse_def split: prod.splits if_splits)
  qed
qed

lemma parseValue_cong:
  assumes "\<And>c cs d r'. s = c # cs \<Longrightarrow> c \<noteq> 0x22 \<Longrightarrow> c = 0x5B \<Longrightarrow> skipWS cs = d # r' \<Longrightarrow>
             d \<noteq> 0x5D \<Longrightarrow> parseElements m [] (d # r') = parseElements m' [] (d # r')"
      and "\<And>c cs d r'. s = c # cs \<Longrightarrow> c \<noteq> 0x22 \<Longrightarrow> c \<noteq> 0x5B \<Longrightarrow> c = 0x7B \<Longrightarrow>
             skipWS cs = d # r' \<Longrightarrow> d \<noteq> 0x7D \<Longrightarrow>
             parseMembers m [] (d # r') = parseMembers m' [] (d # r')"
  shows "parseValue (Suc m) s = parseValue (Suc m') s"
  using assms by (cases s) (auto split: list.splits)

lemma parseElements_cong:
  assumes "parseValue m s = parseValue m' s"
      and "\<And>w r0 d r1. parseValue m' s = Inr (w, r0) \<Longrightarrow> skipWS r0 = d # r1 \<Longrightarrow> d \<noteq> 0x5D \<Longrightarrow>
             d = 0x2C \<Longrightarrow>
             parseElements m (acc @ [w]) (skipWS r1) = parseElements m' (acc @ [w]) (skipWS r1)"
  shows "parseElements (Suc m) acc s = parseElements (Suc m') acc s"
  using assms by (auto split: sum.splits list.splits)

lemma parseMembers_cong:
  assumes "\<And>cs key r0 r1. s = 0x22 # cs \<Longrightarrow> parseChars cs = Inr (key, r0) \<Longrightarrow>
             skipWS r0 = 0x3A # r1 \<Longrightarrow> parseValue m (skipWS r1) = parseValue m' (skipWS r1)"
      and "\<And>cs key r0 r1 w r2 d r3. s = 0x22 # cs \<Longrightarrow> parseChars cs = Inr (key, r0) \<Longrightarrow>
             skipWS r0 = 0x3A # r1 \<Longrightarrow> parseValue m' (skipWS r1) = Inr (w, r2) \<Longrightarrow>
             skipWS r2 = d # r3 \<Longrightarrow> d \<noteq> 0x7D \<Longrightarrow> d = 0x2C \<Longrightarrow>
             parseMembers m (setProperty key w acc) (skipWS r3) =
               parseMembers m' (setProperty key w acc) (skipWS r3)"
  shows "parseMembers (Suc m) acc s = parseMembers (Suc m') acc s"
  using assms by (cases s) (auto split: sum.splits list.splits)

lemma parse_mono:
  "(\<forall>s. parseValue n s \<noteq> Inl FuelExhausted \<longrightarrow> parseValue (Suc n) s = parseValue n s) \<and>
   (\<forall>acc s. parseElements n acc s \<noteq> Inl FuelExhausted \<longrightarrow>
      parseElements (Suc n) acc s = parseElements n acc s) \<and>
   (\<forall>acc s. parseMembers n acc s \<noteq> Inl FuelExhausted \<longrightarrow>
      parseMembers (Suc n) acc s = parseMembers n acc s)"
proof (induction n)
  case 0
  show ?case by simp
next
  case (Suc n)
  then have ihV: "\<And>s. parseValue n s \<noteq> Inl FuelExhausted \<Longrightarrow> parseValue (Suc n) s = parseValue n s"
    and ihE: "\<And>acc s. parseElements n acc s \<noteq> Inl FuelExhausted \<Longrightarrow>
        parseElements (Suc n) acc s = parseElements n acc s"
    and ihM: "\<And>acc s. parseMembers n acc s \<noteq> Inl FuelExhausted \<Longrightarrow>
        parseMembers (Suc n) acc s = parseMembers n acc s"
    by blast+
  have V: "parseValue (Suc (Suc n)) s = parseValue (Suc n) s"
    if a: "parseValue (Suc n) s \<noteq> Inl FuelExhausted" for s
  proof (rule parseValue_cong)
    fix c cs d r'
    assume "s = c # cs" "c \<noteq> 0x22" "c = 0x5B" "skipWS cs = d # r'" "d \<noteq> 0x5D"
    with a have "parseElements n [] (d # r') \<noteq> Inl FuelExhausted" by simp
    then show "parseElements (Suc n) [] (d # r') = parseElements n [] (d # r')" by (rule ihE)
  next
    fix c cs d r'
    assume "s = c # cs" "c \<noteq> 0x22" "c \<noteq> 0x5B" "c = 0x7B" "skipWS cs = d # r'" "d \<noteq> 0x7D"
    with a have "parseMembers n [] (d # r') \<noteq> Inl FuelExhausted" by simp
    then show "parseMembers (Suc n) [] (d # r') = parseMembers n [] (d # r')" by (rule ihM)
  qed
  have E: "parseElements (Suc (Suc n)) acc s = parseElements (Suc n) acc s"
    if a: "parseElements (Suc n) acc s \<noteq> Inl FuelExhausted" for acc s
  proof (rule parseElements_cong)
    have "parseValue n s \<noteq> Inl FuelExhausted" using a by auto
    then show "parseValue (Suc n) s = parseValue n s" by (rule ihV)
  next
    fix w r0 d r1
    assume "parseValue n s = Inr (w, r0)" "skipWS r0 = d # r1" "d \<noteq> 0x5D" "d = 0x2C"
    with a have "parseElements n (acc @ [w]) (skipWS r1) \<noteq> Inl FuelExhausted" by simp
    then show "parseElements (Suc n) (acc @ [w]) (skipWS r1) =
        parseElements n (acc @ [w]) (skipWS r1)" by (rule ihE)
  qed
  have M: "parseMembers (Suc (Suc n)) acc s = parseMembers (Suc n) acc s"
    if a: "parseMembers (Suc n) acc s \<noteq> Inl FuelExhausted" for acc s
  proof (rule parseMembers_cong)
    fix cs key r0 r1
    assume "s = 0x22 # cs" "parseChars cs = Inr (key, r0)" "skipWS r0 = 0x3A # r1"
    with a have "parseValue n (skipWS r1) \<noteq> Inl FuelExhausted" by auto
    then show "parseValue (Suc n) (skipWS r1) = parseValue n (skipWS r1)" by (rule ihV)
  next
    fix cs key r0 r1 w r2 d r3
    assume "s = 0x22 # cs" "parseChars cs = Inr (key, r0)" "skipWS r0 = 0x3A # r1"
      "parseValue n (skipWS r1) = Inr (w, r2)" "skipWS r2 = d # r3" "d \<noteq> 0x7D" "d = 0x2C"
    with a have "parseMembers n (setProperty key w acc) (skipWS r3) \<noteq> Inl FuelExhausted"
      by simp
    then show "parseMembers (Suc n) (setProperty key w acc) (skipWS r3) =
        parseMembers n (setProperty key w acc) (skipWS r3)" by (rule ihM)
  qed
  from V E M show ?case by blast
qed

lemma parseValue_more_fuel:
  "parseValue n s \<noteq> Inl FuelExhausted \<Longrightarrow> parseValue (n + k) s = parseValue n s"
proof (induction k)
  case 0
  show ?case by simp
next
  case (Suc k)
  then have "parseValue (n + k) s \<noteq> Inl FuelExhausted" by simp
  with parse_mono [of "n + k"] have "parseValue (Suc (n + k)) s = parseValue (n + k) s" by blast
  with Suc show ?case by simp
qed

lemma JSON_parse_bound_irrelevant:
  "parseValue (2 * length s + 1 + k) (skipWS s) = parseValue (2 * length s + 1) (skipWS s)"
proof -
  have f: "2 * length (skipWS s) < 2 * length s + 1" using length_skipWS [of s] by simp
  have "parseValue (2 * length s + 1) (skipWS s) \<noteq> Inl FuelExhausted"
  proof
    assume "parseValue (2 * length s + 1) (skipWS s) = Inl FuelExhausted"
    with parse_errors [of "2 * length s + 1"] f have "FuelExhausted = SyntaxError" by blast
    then show False by simp
  qed
  then show ?thesis by (rule parseValue_more_fuel)
qed

section \<open>Trimming\<close>

lemma trimmed_iff:
  "trimmed s r \<longleftrightarrow>
     (\<exists>before after. s = before @ r @ after \<and> list_all isWhiteSpace before \<and>
        list_all isWhiteSpace after) \<and>
     (r = [] \<or> (\<not> isWhiteSpace (hd r) \<and> \<not> isWhiteSpace (last r)))"
proof -
  have "list_ex
       (\<lambda>before. list_ex
          (\<lambda>after. s = before @ r @ after \<and> list_all isWhiteSpace before \<and>
             list_all isWhiteSpace after)
          (suffixes s))
       (prefixes s) \<longleftrightarrow>
     (\<exists>before after. s = before @ r @ after \<and> list_all isWhiteSpace before \<and>
        list_all isWhiteSpace after)" (is "?l \<longleftrightarrow> ?r")
  proof
    assume ?l then show ?r unfolding list_ex_iff by blast
  next
    assume ?r
    then obtain before after where e: "s = before @ r @ after"
      and w: "list_all isWhiteSpace before" "list_all isWhiteSpace after" by blast
    from e have "before \<in> set (prefixes s)" by (simp add: in_set_prefixes)
    moreover from e have "after \<in> set (suffixes s)"
      by (simp add: in_set_suffixes suffix_def)
    ultimately show ?l unfolding list_ex_iff using e w by blast
  qed
  then show ?thesis unfolding trimmed_def by simp
qed

lemma trim_trimmed: "trimmed s (trim s)"
proof -
  define rest where "rest = dropWhile isWhiteSpace s"
  define tail where "tail = rev rest"
  have s: "s = takeWhile isWhiteSpace s @ rest" by (simp add: rest_def)
  have t: "trim s = rev (dropWhile isWhiteSpace tail)"
    by (simp add: trim_def tail_def rest_def)
  have r: "rest = trim s @ rev (takeWhile isWhiteSpace tail)"
  proof -
    have "rev tail = rev (takeWhile isWhiteSpace tail @ dropWhile isWhiteSpace tail)" by simp
    then have "rev tail = rev (dropWhile isWhiteSpace tail) @ rev (takeWhile isWhiteSpace tail)"
      by (simp only: rev_append)
    then show ?thesis by (simp add: t tail_def)
  qed
  have 1: "s = takeWhile isWhiteSpace s @ trim s @ rev (takeWhile isWhiteSpace tail)"
    using s r by simp
  have 2: "list_all isWhiteSpace (takeWhile isWhiteSpace s)"
    unfolding list_all_iff by (blast dest: set_takeWhileD)
  have 3: "list_all isWhiteSpace (rev (takeWhile isWhiteSpace tail))"
    unfolding list_all_iff by (auto dest: set_takeWhileD)
  have 4: "\<not> isWhiteSpace (hd (trim s)) \<and> \<not> isWhiteSpace (last (trim s))" if n: "trim s \<noteq> []"
  proof -
    have d: "dropWhile isWhiteSpace tail \<noteq> []" using n by (simp add: t)
    then have "\<not> isWhiteSpace (hd (dropWhile isWhiteSpace tail))" by (rule hd_dropWhile)
    then have l: "\<not> isWhiteSpace (last (trim s))" using d by (simp add: t last_rev)
    have "rest \<noteq> []" using r n by auto
    then have "\<not> isWhiteSpace (hd rest)" unfolding rest_def by (rule hd_dropWhile)
    moreover have "hd rest = hd (trim s)" using r n by (metis hd_append2)
    ultimately show ?thesis using l by simp
  qed
  from 1 2 3 4 show ?thesis unfolding trimmed_iff by blast
qed

lemma trimmed_unique:
  assumes "trimmed s r"
  shows "r = trim s"
proof -
  from assms obtain before after where s: "s = before @ r @ after"
    and b: "list_all isWhiteSpace before" and a: "list_all isWhiteSpace after"
    and e: "r = [] \<or> (\<not> isWhiteSpace (hd r) \<and> \<not> isWhiteSpace (last r))"
    unfolding trimmed_iff by blast
  show ?thesis
  proof (cases "r = []")
    case True
    then have "list_all isWhiteSpace s" using s a b by simp
    then have "\<forall>x\<in>set s. isWhiteSpace x" by (simp add: list_all_iff)
    then have d: "dropWhile isWhiteSpace s = []" by (simp only: dropWhile_eq_Nil_conv)
    show ?thesis unfolding trim_def True d by simp
  next
    case False
    with e have h: "\<not> isWhiteSpace (hd r)" and l: "\<not> isWhiteSpace (last r)" by simp_all
    have "dropWhile isWhiteSpace s = dropWhile isWhiteSpace (r @ after)"
      unfolding s using b by (intro dropWhile_append2) (simp add: list_all_iff)
    also have "\<dots> = r @ after" using False h by (cases r) simp_all
    finally have 1: "dropWhile isWhiteSpace s = r @ after" .
    have "dropWhile isWhiteSpace (rev after @ rev r) = dropWhile isWhiteSpace (rev r)"
      using a by (intro dropWhile_append2) (simp add: list_all_iff)
    also have "\<dots> = rev r" using False l by (cases "rev r") (simp_all add: hd_rev [symmetric])
    finally show ?thesis by (simp add: trim_def 1)
  qed
qed

lemma trimmed_trim: "trimmed s r \<longleftrightarrow> r = trim s"
  using trim_trimmed trimmed_unique by blast

section \<open>Lower case\<close>

lemmas lower_defs = toLowerCase_def nextIsCased_def isCased_def isCaseIgnorable_def
  lowerUnit_def isUpperLatin_def isUpperGreek_def

lemma lowerFrom_plain: "0x3A3 \<notin> set s \<Longrightarrow> lowerFrom before s = map lowerUnit s"
  by (induction s arbitrary: before) simp_all

lemma toLowerCase_latin1:
  assumes "latin1 s"
  shows "toLowerCase s = map lowerUnit s"
proof -
  have "c \<noteq> 0x3A3" if "c \<in> set s" for c
  proof -
    from assms that have "c \<le> 0xFF" by (simp add: latin1_def list_all_iff)
    then show ?thesis by (auto simp add: word_le_nat_alt)
  qed
  then have "0x3A3 \<notin> set s" by blast
  then show ?thesis unfolding toLowerCase_def by (rule lowerFrom_plain)
qed

lemma unat_plus32: "a \<le> 0xFF \<Longrightarrow> unat (a + 0x20 :: code_unit) = unat a + 32"
  by (simp add: unat_word_ariths word_le_nat_alt)

lemma unat_lowerUnit:
  assumes "a \<le> 0xFF"
  shows "unat (lowerUnit a) =
    (if (65 \<le> unat a \<and> unat a \<le> 90) \<or> (192 \<le> unat a \<and> unat a \<le> 222 \<and> unat a \<noteq> 215)
     then unat a + 32 else unat a)"
proof -
  have g: "\<not> isUpperGreek a" using assms by (simp add: isUpperGreek_def word_le_nat_alt)
  have n: "a \<noteq> 0xD7 \<longleftrightarrow> unat a \<noteq> 215" by (simp add: word_unat_eq_iff)
  have u: "isUpperLatin a \<longleftrightarrow>
      (65 \<le> unat a \<and> unat a \<le> 90) \<or> (192 \<le> unat a \<and> unat a \<le> 222 \<and> unat a \<noteq> 215)"
    by (simp add: isUpperLatin_def n word_le_nat_alt)
  show ?thesis
    unfolding lowerUnit_def using g assms by (simp add: unat_plus32 u)
qed

lemma sameIgnoringCase_unat:
  assumes "a \<le> 0xFF" and "b \<le> 0xFF"
  shows "sameIgnoringCase a b \<longleftrightarrow>
    unat a = unat b \<or>
    (((65 \<le> unat a \<and> unat a \<le> 90) \<or> (192 \<le> unat a \<and> unat a \<le> 214) \<or> (216 \<le> unat a \<and> unat a \<le> 222)) \<and>
       unat b = unat a + 32) \<or>
    (((65 \<le> unat b \<and> unat b \<le> 90) \<or> (192 \<le> unat b \<and> unat b \<le> 214) \<or> (216 \<le> unat b \<and> unat b \<le> 222)) \<and>
       unat a = unat b + 32)"
proof -
  have 1: "b = a + 0x20 \<longleftrightarrow> unat b = unat a + 32"
    using assms(1) by (simp add: word_unat_eq_iff unat_plus32)
  have 2: "a = b + 0x20 \<longleftrightarrow> unat a = unat b + 32"
    using assms(2) by (simp add: word_unat_eq_iff unat_plus32)
  have 3: "a = b \<longleftrightarrow> unat a = unat b" by (simp add: word_unat_eq_iff)
  show ?thesis
    unfolding sameIgnoringCase_def capitalLetter_def 1 2 3 by (simp add: word_le_nat_alt)
qed

lemma lowerUnit_same:
  assumes "a \<le> 0xFF" and "b \<le> 0xFF"
  shows "lowerUnit a = lowerUnit b \<longleftrightarrow> sameIgnoringCase a b"
proof -
  have "lowerUnit a = lowerUnit b \<longleftrightarrow> unat (lowerUnit a) = unat (lowerUnit b)"
    by (simp add: word_unat_eq_iff)
  also have "\<dots> \<longleftrightarrow> sameIgnoringCase a b"
    unfolding unat_lowerUnit [OF assms(1)] unat_lowerUnit [OF assms(2)]
      sameIgnoringCase_unat [OF assms]
    by presburger
  finally show ?thesis .
qed

lemma map_lowerUnit_same:
  assumes "latin1 m" and "latin1 q"
  shows "map lowerUnit m = map lowerUnit q \<longleftrightarrow> list_all2 sameIgnoringCase m q"
proof -
  have "map lowerUnit m = map lowerUnit q \<longleftrightarrow> list_all2 (\<lambda>a b. lowerUnit a = lowerUnit b) m q"
    by (auto simp add: list_all2_conv_all_nth list_eq_iff_nth_eq)
  also have "\<dots> \<longleftrightarrow> list_all2 sameIgnoringCase m q"
  proof -
    have "lowerUnit (m ! i) = lowerUnit (q ! i) \<longleftrightarrow> sameIgnoringCase (m ! i) (q ! i)"
      if "i < length m" and "length m = length q" for i
    proof -
      from that assms have "m ! i \<le> 0xFF" and "q ! i \<le> 0xFF"
        by (simp_all add: latin1_def list_all_length)
      then show ?thesis by (rule lowerUnit_same)
    qed
    then show ?thesis unfolding list_all2_conv_all_nth by blast
  qed
  finally show ?thesis .
qed

lemma containsIgnoringCase_iff:
  "containsIgnoringCase s q \<longleftrightarrow>
     (\<exists>before mid after. s = before @ mid @ after \<and> list_all2 sameIgnoringCase mid q)"
proof -
  have "(\<exists>mid\<in>set (sublists s). list_all2 sameIgnoringCase mid q) \<longleftrightarrow>
      (\<exists>mid. sublist mid s \<and> list_all2 sameIgnoringCase mid q)"
    by (simp only: in_set_sublists Bex_def)
  also have "\<dots> \<longleftrightarrow>
      (\<exists>before mid after. s = before @ mid @ after \<and> list_all2 sameIgnoringCase mid q)"
    unfolding sublist_def by blast
  finally show ?thesis unfolding containsIgnoringCase_def list_ex_iff .
qed

lemma includes_lower_latin1:
  assumes "latin1 s" and "latin1 q"
  shows "js_includes (toLowerCase s) (toLowerCase q) \<longleftrightarrow> containsIgnoringCase s q"
proof
  assume "js_includes (toLowerCase s) (toLowerCase q)"
  then have "\<exists>b a. map lowerUnit s = b @ map lowerUnit q @ a"
    unfolding js_includes_iff toLowerCase_latin1 [OF assms(1)] toLowerCase_latin1 [OF assms(2)] .
  then obtain b a where "map lowerUnit s = b @ map lowerUnit q @ a" by blast
  then have "\<exists>us vs. s = us @ vs \<and> b = map lowerUnit us \<and> map lowerUnit q @ a = map lowerUnit vs"
    by (simp only: map_eq_append_conv)
  then obtain us vs where s: "s = us @ vs" and "map lowerUnit q @ a = map lowerUnit vs"
    by blast
  then have "\<exists>ms ws. vs = ms @ ws \<and> map lowerUnit q = map lowerUnit ms \<and> a = map lowerUnit ws"
    by (simp only: append_eq_map_conv)
  then obtain ms ws where v: "vs = ms @ ws" and m: "map lowerUnit q = map lowerUnit ms"
    by blast
  have "latin1 ms" using assms(1) by (simp add: s v latin1_def)
  from map_lowerUnit_same [OF this assms(2)] m [symmetric]
  have "list_all2 sameIgnoringCase ms q" by (rule iffD1)
  with s v show "containsIgnoringCase s q" unfolding containsIgnoringCase_iff by blast
next
  assume "containsIgnoringCase s q"
  then obtain before mid after where s: "s = before @ mid @ after"
    and m: "list_all2 sameIgnoringCase mid q"
    unfolding containsIgnoringCase_iff by blast
  have "latin1 mid" using assms(1) by (simp add: s latin1_def)
  from map_lowerUnit_same [OF this assms(2)] m
  have "map lowerUnit mid = map lowerUnit q" by (rule iffD2)
  then have "map lowerUnit s = map lowerUnit before @ map lowerUnit q @ map lowerUnit after"
    by (simp add: s)
  then show "js_includes (toLowerCase s) (toLowerCase q)"
    unfolding js_includes_iff toLowerCase_latin1 [OF assms(1)] toLowerCase_latin1 [OF assms(2)]
    by blast
qed

lemma js_includes_Nil: "js_includes s []"
  by (simp add: js_includes_sublist)

lemma filteredNotes_filter:
  "filteredNotes st =
     filter
       (\<lambda>n. js_includes (toLowerCase (title n)) (toLowerCase (search st)) \<or>
            js_includes (toLowerCase (content n)) (toLowerCase (search st)))
       (notes st)"
  by (simp add: filteredNotes_def toLowerCase_def js_includes_Nil)

lemma filteredNotes_latin1:
  assumes "latin1 (search st)"
      and "list_all (\<lambda>n. latin1 (title n) \<and> latin1 (content n)) (notes st)"
  shows "filteredNotes st =
     filter
       (\<lambda>n. containsIgnoringCase (title n) (search st) \<or>
            containsIgnoringCase (content n) (search st))
       (notes st)"
  unfolding filteredNotes_filter using assms
  by (intro filter_cong refl) (simp add: list_all_iff includes_lower_latin1)

lemma searching_eq:
  "searchingMilk = \<lparr>notes = [groceries, noteB, noteA], selectedId = Some (js ''1712131200000''),
     isCreating = False, editNote = emptyDraft, search = js ''MILK'', sidebarOpen = True\<rparr>"
  "searchingGroc = \<lparr>notes = [groceries, noteB, noteA], selectedId = Some (js ''1712131200000''),
     isCreating = False, editNote = emptyDraft, search = js ''groc'', sidebarOpen = True\<rparr>"
  "searchingSigma = \<lparr>notes = [sigmaNote], selectedId = Some (js ''1712217600000''),
     isCreating = False, editNote = emptyDraft, search = [0x3A3], sidebarOpen = True\<rparr>"
  by (simp_all add: searchingMilk_def searchingGroc_def searchingSigma_def mount_def dispatch_def
      selectEffect_def handleResize_def truthy_def groceries_def sigmaNote_def js_def)

lemma lower_examples:
  "toLowerCase (js ''MILK'') = js ''milk''" "toLowerCase (js ''groc'') = js ''groc''"
  "toLowerCase (js ''Groceries'') = js ''groceries''"
  "toLowerCase (js ''Milk, eggs'') = js ''milk, eggs''"
  "toLowerCase (js ''A'') = js ''a''" "toLowerCase (js ''a'') = js ''a''"
  "toLowerCase (js ''B'') = js ''b''" "toLowerCase (js ''b'') = js ''b''"
  "toLowerCase [0x391, 0x3A3] = [0x3B1, 0x3C2]" "toLowerCase [0x3A3] = [0x3C3]"
  by (simp_all add: lower_defs js_def)

lemma filteredNotes_examples:
  "filteredNotes searchingMilk = [groceries]" "filteredNotes searchingGroc = [groceries]"
  "filteredNotes searchingSigma = []"
  by (simp_all add: filteredNotes_def searching_eq groceries_def noteA_def noteB_def sigmaNote_def
      lower_examples) (simp_all add: js_def)

lemma latin1_examples:
  "latin1 (js ''MILK'')" "latin1 (js ''groc'')"
  "list_all (\<lambda>n. latin1 (title n) \<and> latin1 (content n)) [groceries, noteB, noteA]"
  by (simp_all add: latin1_def groceries_def noteA_def noteB_def js_def)

lemma contains_examples:
  "containsIgnoringCase (js ''Milk, eggs'') (js ''MILK'')"
  "containsIgnoringCase (js ''Groceries'') (js ''groc'')"
  "\<not> containsIgnoringCase (js ''Groceries'') (js ''MILK'')"
  "containsIgnoringCase [0x391, 0x3A3] [0x3A3]"
  by (simp_all add: containsIgnoringCase_def sameIgnoringCase_def capitalLetter_def js_def)

lemma trimmed_examples:
  "trimmed (js ''  Groceries '') (js ''Groceries'')" "trimmed (js '' Milk, eggs'') (js ''Milk, eggs'')"
  "trimmed (js ''  '') []" "trimmed (js '' x '') (js ''x'')" "trimmed [] []"
  "trimmed (js ''b'') (js ''b'')"
  "\<not> trimmed (js '' x '') (js '' x '')"
  by (simp_all add: trimmed_def js_def isWhiteSpace_def)

lemma retitlingA_eq:
  "retitlingA = \<lparr>notes = [noteB, noteA], selectedId = Some (js ''1711958400000''), isCreating = False,
     editNote = \<lparr>title = js ''  '', content = js '' x ''\<rparr>, search = [], sidebarOpen = True\<rparr>"
  "blankEdit = \<lparr>notes = [noteB, noteA], selectedId = Some (js ''1711958400000''), isCreating = False,
     editNote = \<lparr>title = js ''  '', content = []\<rparr>, search = [], sidebarOpen = True\<rparr>"
  by (simp_all add: retitlingA_def blankEdit_def editingA_eq dispatch_def handler_defs)

section \<open>The claims\<close>

text \<open>
  C1 as the code has it. When the key is absent or holds the empty string, \<open>load\<close> gives
  the empty collection. When it holds the text written for a collection of notes,
  \<open>load\<close> gives that collection. On any other stored text \<open>load\<close> does what
  \<open>JSON.parse\<close> does on it, and the only error it raises is \<open>SyntaxError\<close>.
\<close>

theorem load_cases:
  "(getItem stg storageKey = None \<longrightarrow> load stg = Inr (JArray [])) \<and>
   (getItem stg storageKey = Some [] \<longrightarrow> load stg = Inr (JArray [])) \<and>
   (getItem stg storageKey = Some (JSON_stringify (notesValue ns)) \<longrightarrow>
      load stg = Inr (notesValue ns)) \<and>
   (getItem stg storageKey = Some saved \<and> saved \<noteq> [] \<longrightarrow> load stg = JSON_parse saved) \<and>
   (load stg = Inl e \<longrightarrow> e = SyntaxError)"
proof -
  have "JSON_stringify (notesValue ns) \<noteq> []" by (simp add: notesValue_def)
  then have a: "getItem stg storageKey = Some (JSON_stringify (notesValue ns)) \<longrightarrow>
      load stg = Inr (notesValue ns)"
    by (simp add: load_def JSON_parse_stringify_notes)
  have b: "load stg = Inl e \<longrightarrow> e = SyntaxError"
    by (auto simp add: load_def split: option.splits if_splits dest: JSON_parse_error)
  from a b show ?thesis by (simp add: load_def)
qed

theorem load_cases_witness:
  "getItem [] storageKey = None \<and> load [] = Inr (JArray []) \<and>
   getItem [(storageKey, [])] storageKey = Some [] \<and> load [(storageKey, [])] = Inr (JArray []) \<and>
   getItem [(storageKey, noteAText)] storageKey = Some (JSON_stringify (notesValue [noteA])) \<and>
   load [(storageKey, noteAText)] = Inr (notesValue [noteA]) \<and>
   getItem [(storageKey, js ''{'')] storageKey = Some (js ''{'') \<and> js ''{'' \<noteq> [] \<and>
   load [(storageKey, js ''{'')] = Inl SyntaxError"
proof -
  have g: "getItem [] storageKey = None" "getItem [(storageKey, [])] storageKey = Some []"
    "getItem [(storageKey, noteAText)] storageKey = Some (JSON_stringify (notesValue [noteA]))"
    "getItem [(storageKey, js ''{'')] storageKey = Some (js ''{'')"
    by (simp_all add: getItem_def stringify_noteA)
  have b: "js ''{'' \<noteq> []" by (simp add: js_def)
  have m: "JSON_parse (js ''{'') = Inl SyntaxError"
    by (simp add: JSON_parse_def skipWS_def isJSONWhiteSpace_def js_def isDigit_def
        parseValue.simps(2) [of "pred_numeral k" for k, folded numeral_eq_Suc])
  from load_cases [of "[]" "[]" "[]" SyntaxError]
    load_cases [of "[(storageKey, [])]" "[]" "[]" SyntaxError]
    load_cases [of "[(storageKey, noteAText)]" "[noteA]" "[]" SyntaxError]
    load_cases [of "[(storageKey, js ''{'')]" "[]" "js ''{''" SyntaxError]
    g b m
  show ?thesis by simp
qed

text \<open>
  C1 as stated fails: on a stored value that is not JSON, \<open>JSON.parse\<close> raises
  \<open>SyntaxError\<close> and nothing catches it.
\<close>

theorem load_malformed_raises:
  "load [(storageKey, js ''not json'')] = Inl SyntaxError"
proof -
  have "JSON_parse (js ''not json'') = Inl SyntaxError"
    by (simp add: JSON_parse_def skipWS_def isJSONWhiteSpace_def js_def isDigit_def
        parseValue.simps(2) [of "pred_numeral k" for k, folded numeral_eq_Suc])
  moreover have "js ''not json'' \<noteq> []" by (simp add: js_def)
  ultimately show ?thesis by (simp add: load_def getItem_def)
qed

text \<open>
  C2 as the code has it. From the empty collection, the collection has as many notes as
  there were \<open>add\<close> calls that passed the guard, and the ids are the decimal renderings
  of the \<open>Date.now()\<close> readings of those calls, the latest first. So the ids are pairwise
  distinct exactly when the readings of the accepted calls are.
\<close>

theorem add_ids_distinct:
  "length (notes (addAll calls (mount w []))) = length (accepted calls) \<and>
   map note_id (notes (addAll calls (mount w []))) = rev (map toString (accepted calls)) \<and>
   (distinct (map note_id (notes (addAll calls (mount w [])))) \<longleftrightarrow> distinct (accepted calls))"
proof -
  have ids: "map note_id (notes (addAll calls (mount w []))) = rev (map toString (accepted calls))"
    by (simp add: addAll_ids mount_empty_notes)
  have "distinct (map toString (accepted calls)) \<longleftrightarrow> distinct (accepted calls)"
    by (simp add: distinct_map inj_on_subset [OF inj_toString])
  then have d: "distinct (map note_id (notes (addAll calls (mount w [])))) \<longleftrightarrow>
      distinct (accepted calls)"
    unfolding ids by simp
  have "length (map note_id (notes (addAll calls (mount w [])))) = length (accepted calls)"
    unfolding ids by simp
  then have "length (notes (addAll calls (mount w []))) = length (accepted calls)" by simp
  with ids d show ?thesis by blast
qed

theorem add_ids_distinct_witness:
  "accepted threeCalls = [1714557600000, 1714557602000] \<and>
   length (notes (addAll threeCalls (mount 1024 []))) = 2 \<and>
   map note_id (notes (addAll threeCalls (mount 1024 []))) =
     [js ''1714557602000'', js ''1714557600000''] \<and>
   distinct (map note_id (notes (addAll threeCalls (mount 1024 []))))"
  using add_ids_distinct [of threeCalls 1024]
  by (simp only: accepted_examples) (simp add: decimal_examples js_def)

text \<open>
  C2 as stated fails: two \<open>add\<close> calls with non-blank input that read the same
  millisecond from \<open>Date.now()\<close> give two notes the same id.
\<close>

theorem same_tick_same_id:
  "map note_id (notes (addAll sameTick (mount 1024 []))) = [js ''1714557600000'', js ''1714557600000''] \<and>
   \<not> distinct (map note_id (notes (addAll sameTick (mount 1024 []))))"
proof -
  have "map note_id (notes (addAll sameTick (mount 1024 []))) = [js ''1714557600000'', js ''1714557600000'']"
    unfolding addAll_ids by (simp add: accepted_examples mount_empty_notes decimal_examples)
  then show ?thesis by simp
qed

text \<open>
  C3. While \<open>noteA\<close> is being edited, deleting \<open>noteB\<close> clears the creating flag but
  keeps the edit buffer: the form is still shown with the draft, where
  \<open>handleSelectNote\<close> and the Cancel button reset the buffer.
\<close>

theorem delete_keeps_edit_buffer:
  "MainArea editingA = EditForm \<lparr>title = js ''A'', content = js ''a''\<rparr> \<and>
   MainArea (dispatch (DeleteNote (js ''1712044800000'')) editingA) =
     EditForm \<lparr>title = js ''A'', content = js ''a''\<rparr> \<and>
   editNote (dispatch (DeleteNote (js ''1712044800000'')) editingA) \<noteq> emptyDraft \<and>
   \<not> isCreating (dispatch (DeleteNote (js ''1712044800000'')) editingA)"
  by (simp add: editingA_eq dispatch_def handleDeleteNote_def selectEffect_def MainArea_def
      truthy_def noteA_def noteB_def js_def emptyDraft_def)

text \<open>
  C4. Whatever the state, when the trimmed title and the trimmed content of the edit
  buffer are both empty, the save command changes nothing: \<open>handleSaveNote\<close> returns the
  state it was given, so no note is created or changed, and no effect runs afterwards.
  An \<open>add\<close> with blank input leaves the collection as it was.
\<close>

theorem save_blank_is_rejected:
  assumes "blank (title (editNote st)) (content (editNote st))"
  shows "handleSaveNote now clock st = st \<and> dispatch (SaveNote now clock) st = st \<and>
         (blank t c \<longrightarrow> notes (add now clock t c st') = notes st')"
  using assms by (simp add: blank_def handleSaveNote_def dispatch_save_rejected add_rejected)

theorem save_blank_is_rejected_witness:
  "blank (title (editNote blankForm)) (content (editNote blankForm)) \<and>
   dispatch (SaveNote 1714557600000 clock0) blankForm = blankForm \<and>
   blank (js ''   '') [] \<and>
   notes (add 1714557600000 clock0 (js ''   '') [] viewingB) = [noteB, noteA]"
proof -
  have h: "blank (title (editNote blankForm)) (content (editNote blankForm))"
    by (simp add: blankForm_eq blank_examples)
  from save_blank_is_rejected [OF h, of 1714557600000 clock0 "js ''   ''" "[]" viewingB] h
  show ?thesis by (simp add: blank_examples viewingB_eq)
qed

text \<open>
  C5. Let \<open>tt\<close> be the title and \<open>tc\<close> the content with the white space at both ends
  taken away, not both empty. Whatever the state, \<open>add\<close> puts one new note in front of
  the collection and leaves the notes that were there as they were, in their order. The
  new note's title is \<open>tt\<close>, or \<open>(Untitled)\<close> when \<open>tt\<close> is empty, and its content is
  \<open>tc\<close>; its id is the selection afterwards. \<open>handleSaveNote\<close> itself does the same
  whenever the edit buffer holds that input and the form is creating or nothing is
  selected.
\<close>

theorem add_prepends_new_note:
  assumes "trimmed t tt" and "trimmed c tc" and "\<not> (tt = [] \<and> tc = [])"
  shows "notes (add now clock t c st) =
           \<lparr>title = (if tt = [] then js ''(Untitled)'' else tt), content = tc,
            note_id = toString now, lastEdited = clock 0\<rparr> # notes st \<and>
         selectedId (add now clock t c st) = Some (toString now) \<and>
         (editNote st = \<lparr>title = t, content = c\<rparr> \<and> (isCreating st \<or> \<not> truthy (selectedId st)) \<longrightarrow>
            notes (handleSaveNote now clock st) =
              \<lparr>title = (if tt = [] then js ''(Untitled)'' else tt), content = tc,
               note_id = toString now, lastEdited = clock 0\<rparr> # notes st \<and>
            selectedId (handleSaveNote now clock st) = Some (toString now))"
proof -
  have tt: "tt = trim t" and tc: "tc = trim c"
    using assms(1,2) by (simp_all add: trimmed_unique)
  have nb: "\<not> blank t c" using assms(3) by (simp add: blank_def tt tc)
  have "notes (handleSaveNote now clock st) = newNote now clock t c # notes st \<and>
      selectedId (handleSaveNote now clock st) = Some (toString now)"
    if e: "editNote st = \<lparr>title = t, content = c\<rparr>"
      and b: "isCreating st \<or> \<not> truthy (selectedId st)"
  proof -
    have "\<not> (trim (title (editNote st)) = [] \<and> trim (content (editNote st)) = [])"
      using nb e by (simp add: blank_def)
    from handleSaveNote_create [OF this b, of now clock] e show ?thesis by simp
  qed
  with add_accepted [OF nb, of now clock st] show ?thesis
    unfolding tt tc by (simp add: newNote_def orUntitled_def)
qed

theorem add_prepends_new_note_witness:
  "trimmed (js ''  Groceries '') (js ''Groceries'') \<and>
   trimmed (js '' Milk, eggs'') (js ''Milk, eggs'') \<and>
   notes (add 1714557600000 clock0 (js ''  Groceries '') (js '' Milk, eggs'') viewingB) =
     [\<lparr>title = js ''Groceries'', content = js ''Milk, eggs'', note_id = js ''1714557600000'',
       lastEdited = js ''2024-05-01T10:00:00.000Z''\<rparr>, noteB, noteA] \<and>
   selectedId (add 1714557600000 clock0 (js ''  Groceries '') (js '' Milk, eggs'') viewingB) =
     Some (js ''1714557600000'') \<and>
   trimmed (js ''  '') [] \<and> trimmed (js '' x '') (js ''x'') \<and>
   notes (add 1714557602000 clock0 (js ''  '') (js '' x '') viewingB) =
     [\<lparr>title = js ''(Untitled)'', content = js ''x'', note_id = js ''1714557602000'',
       lastEdited = js ''2024-05-01T10:00:00.000Z''\<rparr>, noteB, noteA] \<and>
   editNote draftForm = \<lparr>title = [], content = js ''b''\<rparr> \<and> isCreating draftForm \<and>
   notes (handleSaveNote 1714557602000 clock0 draftForm) =
     [\<lparr>title = js ''(Untitled)'', content = js ''b'', note_id = js ''1714557602000'',
       lastEdited = js ''2024-05-01T10:00:00.000Z''\<rparr>, noteB, noteA]"
proof -
  have n: "js ''Groceries'' \<noteq> []" "js ''Milk, eggs'' \<noteq> []" "js ''x'' \<noteq> []" "js ''b'' \<noteq> []"
    by (simp_all add: js_def)
  have d: "editNote draftForm = \<lparr>title = [], content = js ''b''\<rparr>" "isCreating draftForm"
    "notes draftForm = [noteB, noteA]"
    by (simp_all add: draftForm_eq)
  have v: "notes viewingB = [noteB, noteA]" by (simp add: viewingB_eq)
  from add_prepends_new_note [OF trimmed_examples(1) trimmed_examples(2), of 1714557600000 clock0 viewingB]
  have 1: "notes (add 1714557600000 clock0 (js ''  Groceries '') (js '' Milk, eggs'') viewingB) =
     [\<lparr>title = js ''Groceries'', content = js ''Milk, eggs'', note_id = js ''1714557600000'',
       lastEdited = js ''2024-05-01T10:00:00.000Z''\<rparr>, noteB, noteA]"
    "selectedId (add 1714557600000 clock0 (js ''  Groceries '') (js '' Milk, eggs'') viewingB) =
     Some (js ''1714557600000'')"
    by (simp_all add: n v decimal_examples clock0_def)
  from add_prepends_new_note [OF trimmed_examples(3) trimmed_examples(4), of 1714557602000 clock0 viewingB]
  have 2: "notes (add 1714557602000 clock0 (js ''  '') (js '' x '') viewingB) =
     [\<lparr>title = js ''(Untitled)'', content = js ''x'', note_id = js ''1714557602000'',
       lastEdited = js ''2024-05-01T10:00:00.000Z''\<rparr>, noteB, noteA]"
    by (simp add: n v decimal_examples clock0_def)
  from add_prepends_new_note [OF trimmed_examples(5) trimmed_examples(6), of 1714557602000 clock0 draftForm]
  have 3: "notes (handleSaveNote 1714557602000 clock0 draftForm) =
     [\<lparr>title = js ''(Untitled)'', content = js ''b'', note_id = js ''1714557602000'',
       lastEdited = js ''2024-05-01T10:00:00.000Z''\<rparr>, noteB, noteA]"
    by (simp add: n d decimal_examples clock0_def)
  from 1 2 3 d(1,2) trimmed_examples(1-4) show ?thesis by blast
qed

text \<open>
  C6 as the code has it. Saving while a non-empty id is selected and the form is not
  creating (the guard \<open>selectedId && !isCreating\<close> of the update branch), with \<open>tt\<close> the
  title and \<open>tc\<close> the content of the edit buffer with the white space at both ends taken
  away. When \<open>tt\<close> and \<open>tc\<close> are both empty, or when no note has the selected id, the
  collection is unchanged. Otherwise the collection keeps its length and every position
  keeps its note, except that a note with the selected id gets the title \<open>tt\<close>, or
  \<open>(Untitled)\<close> when \<open>tt\<close> is empty, the content \<open>tc\<close> and a fresh reading of the clock
  as \<open>lastEdited\<close>. No note moves.
\<close>

theorem save_updates_in_place:
  assumes "selectedId st = Some i" and "i \<noteq> []" and "\<not> isCreating st"
      and "trimmed (title (editNote st)) tt" and "trimmed (content (editNote st)) tc"
  shows "(tt = [] \<and> tc = [] \<longrightarrow> notes (dispatch (SaveNote now clock) st) = notes st) \<and>
         (i \<notin> note_id ` set (notes st) \<longrightarrow> notes (dispatch (SaveNote now clock) st) = notes st) \<and>
         length (notes (dispatch (SaveNote now clock) st)) = length (notes st) \<and>
         (\<not> (tt = [] \<and> tc = []) \<longrightarrow>
            (\<forall>k < length (notes st).
               notes (dispatch (SaveNote now clock) st) ! k =
                 (if note_id (notes st ! k) = i
                  then (notes st ! k)\<lparr>title := (if tt = [] then js ''(Untitled)'' else tt),
                         content := tc,
                         lastEdited :=
                           clock (length (filter (\<lambda>n. note_id n = i) (take k (notes st))))\<rparr>
                  else notes st ! k)))"
proof (cases "tt = [] \<and> tc = []")
  case True
  have tt: "tt = trim (title (editNote st))" and tc: "tc = trim (content (editNote st))"
    using assms(4,5) by (simp_all add: trimmed_unique)
  from True have "dispatch (SaveNote now clock) st = st"
    unfolding tt tc by (intro dispatch_save_rejected) simp_all
  with True show ?thesis by simp
next
  case False
  have tt: "tt = trim (title (editNote st))" and tc: "tc = trim (content (editNote st))"
    using assms(4,5) by (simp_all add: trimmed_unique)
  have nb: "\<not> blank (title (editNote st)) (content (editNote st))"
    using False by (simp add: blank_def tt tc)
  have tr: "truthy (selectedId st)" using assms(1,2) by (simp add: truthy_def)
  note eq = dispatch_save_update [OF nb tr assms(3), of now clock]
  have a: "i \<notin> note_id ` set (notes st) \<longrightarrow> notes (dispatch (SaveNote now clock) st) = notes st"
  proof
    assume "i \<notin> note_id ` set (notes st)"
    then have "selectedId st \<notin> (\<lambda>n. Some (note_id n)) ` set (notes st)"
      using assms(1) by auto
    then show "notes (dispatch (SaveNote now clock) st) = notes st"
      unfolding eq by (rule updateNotes_absent)
  qed
  have b: "length (notes (dispatch (SaveNote now clock) st)) = length (notes st)"
    unfolding eq by (rule updateNotes_length)
  have c: "\<forall>k < length (notes st).
            notes (dispatch (SaveNote now clock) st) ! k =
              (if note_id (notes st ! k) = i
               then (notes st ! k)\<lparr>title := (if tt = [] then js ''(Untitled)'' else tt),
                      content := tc,
                      lastEdited :=
                        clock (length (filter (\<lambda>n. note_id n = i) (take k (notes st))))\<rparr>
               else notes st ! k)"
    unfolding eq tt tc using assms(1) by (simp add: updateNotes_nth orUntitled_def)
  from False a b c show ?thesis by blast
qed

theorem save_updates_in_place_witness:
  "selectedId retitlingA = Some (js ''1711958400000'') \<and> js ''1711958400000'' \<noteq> [] \<and>
   \<not> isCreating retitlingA \<and>
   editNote retitlingA = \<lparr>title = js ''  '', content = js '' x ''\<rparr> \<and>
   trimmed (js ''  '') [] \<and> trimmed (js '' x '') (js ''x'') \<and>
   notes retitlingA = [noteB, noteA] \<and>
   length (notes (dispatch (SaveNote 1714557609000 clock0) retitlingA)) = 2 \<and>
   notes (dispatch (SaveNote 1714557609000 clock0) retitlingA) ! 0 = noteB \<and>
   notes (dispatch (SaveNote 1714557609000 clock0) retitlingA) ! 1 =
     \<lparr>title = js ''(Untitled)'', content = js ''x'', note_id = js ''1711958400000'',
      lastEdited = js ''2024-05-01T10:00:00.000Z''\<rparr> \<and>
   js ''1711958400000'' \<notin> note_id ` set (notes (retitlingA\<lparr>notes := [noteB]\<rparr>)) \<and>
   notes (dispatch (SaveNote 1714557609000 clock0) (retitlingA\<lparr>notes := [noteB]\<rparr>)) = [noteB] \<and>
   editNote blankEdit = \<lparr>title = js ''  '', content = []\<rparr> \<and> trimmed [] [] \<and>
   notes (dispatch (SaveNote 1714557609000 clock0) blankEdit) = notes blankEdit"
proof -
  have h1: "selectedId retitlingA = Some (js ''1711958400000'')" by (simp add: retitlingA_eq)
  have h2: "js ''1711958400000'' \<noteq> []" by (simp add: js_def)
  have h3: "\<not> isCreating retitlingA" by (simp add: retitlingA_eq)
  have e: "editNote retitlingA = \<lparr>title = js ''  '', content = js '' x ''\<rparr>"
    by (simp add: retitlingA_eq)
  have h4: "trimmed (title (editNote retitlingA)) []"
    and h5: "trimmed (content (editNote retitlingA)) (js ''x'')"
    by (simp_all add: e trimmed_examples)
  have ids: "note_id noteB \<noteq> js ''1711958400000''" "note_id noteA = js ''1711958400000''"
    by (simp_all add: noteA_def noteB_def js_def)
  have n: "notes retitlingA = [noteB, noteA]" by (simp add: retitlingA_eq)
  have x: "js ''x'' \<noteq> []" by (simp add: js_def)
  from save_updates_in_place [OF h1 h2 h3 h4 h5, of 1714557609000 clock0]
  have c: "length (notes (dispatch (SaveNote 1714557609000 clock0) retitlingA)) = 2"
    and k: "\<And>k. k < 2 \<Longrightarrow> notes (dispatch (SaveNote 1714557609000 clock0) retitlingA) ! k =
          (if note_id ([noteB, noteA] ! k) = js ''1711958400000''
           then ([noteB, noteA] ! k)\<lparr>title := js ''(Untitled)'', content := js ''x'',
                  lastEdited := clock0 (length (filter (\<lambda>n. note_id n = js ''1711958400000'') (take k [noteB, noteA])))\<rparr>
           else [noteB, noteA] ! k)"
    unfolding n by (simp_all add: x)
  from k [of 0] k [of 1] have r:
    "notes (dispatch (SaveNote 1714557609000 clock0) retitlingA) ! 0 = noteB"
    "notes (dispatch (SaveNote 1714557609000 clock0) retitlingA) ! 1 =
       \<lparr>title = js ''(Untitled)'', content = js ''x'', note_id = js ''1711958400000'',
        lastEdited = js ''2024-05-01T10:00:00.000Z''\<rparr>"
    by (simp_all add: ids clock0_def)
  have ab: "js ''1711958400000'' \<notin> note_id ` set (notes (retitlingA\<lparr>notes := [noteB]\<rparr>))"
    using ids(1) by auto
  from ab save_updates_in_place [of "retitlingA\<lparr>notes := [noteB]\<rparr>" "js ''1711958400000''"
      "[]" "js ''x''" 1714557609000 clock0] h1 h2 h3 h4 h5
  have r2: "notes (dispatch (SaveNote 1714557609000 clock0) (retitlingA\<lparr>notes := [noteB]\<rparr>)) = [noteB]"
    by simp
  have b1: "selectedId blankEdit = Some (js ''1711958400000'')" "\<not> isCreating blankEdit"
    "editNote blankEdit = \<lparr>title = js ''  '', content = []\<rparr>"
    by (simp_all add: retitlingA_eq)
  have b4: "trimmed (title (editNote blankEdit)) []" "trimmed (content (editNote blankEdit)) []"
    by (simp_all add: b1 trimmed_examples)
  from save_updates_in_place [OF b1(1) h2 b1(2) b4, of 1714557609000 clock0]
  have r3: "notes (dispatch (SaveNote 1714557609000 clock0) blankEdit) = notes blankEdit"
    by simp
  from h1 h2 h3 e trimmed_examples(3,4,5) n c r ab r2 b1(3) r3 show ?thesis by blast
qed

text \<open>
  C6 as stated fails. The user edits note A, whose id is in the collection, and replaces
  the title with two spaces and the content with nothing. Saving returns at the guard of
  line 109: the collection is what it was, the title of A is still \<open>A\<close> and not the
  placeholder, its content is still \<open>a\<close>, and \<open>lastEdited\<close> is not refreshed.
\<close>

theorem blank_update_is_dropped:
  "notes blankEdit = [noteB, noteA] \<and> selectedId blankEdit = Some (note_id noteA) \<and>
   \<not> isCreating blankEdit \<and> editNote blankEdit = \<lparr>title = js ''  '', content = []\<rparr> \<and>
   notes (dispatch (SaveNote 1714557609000 clock0) blankEdit) = [noteB, noteA] \<and>
   notes (dispatch (SaveNote 1714557609000 clock0) blankEdit) \<noteq>
     [noteB, noteA\<lparr>title := js ''(Untitled)'', content := [], lastEdited := clock0 0\<rparr>]"
proof -
  have "dispatch (SaveNote 1714557609000 clock0) blankEdit = blankEdit"
    by (rule dispatch_save_rejected) (simp_all add: retitlingA_eq trim_def js_def isWhiteSpace_def)
  moreover have "noteA \<noteq> noteA\<lparr>title := js ''(Untitled)'', content := [], lastEdited := clock0 0\<rparr>"
    by (simp add: noteA_def js_def)
  ultimately show ?thesis by (simp add: retitlingA_eq noteA_def)
qed

text \<open>
  C7 as the code has it. With the empty query \<open>filteredNotes\<close> is the whole collection.
  With any query it is a subsequence of the collection, its order kept. When the query
  and the titles and contents of the notes are made of code units up to U+00FF, it is the
  collection filtered to the notes whose title or content contains the query as a
  substring, case ignored.
\<close>

theorem filteredNotes_spec:
  "(search st = [] \<longrightarrow> filteredNotes st = notes st) \<and>
   subseq (filteredNotes st) (notes st) \<and>
   (latin1 (search st) \<and> list_all (\<lambda>n. latin1 (title n) \<and> latin1 (content n)) (notes st) \<longrightarrow>
      filteredNotes st =
        filter
          (\<lambda>n. containsIgnoringCase (title n) (search st) \<or>
               containsIgnoringCase (content n) (search st))
          (notes st))"
proof -
  have "search st = [] \<longrightarrow> filteredNotes st = notes st" by (simp add: filteredNotes_def)
  moreover have "subseq (filteredNotes st) (notes st)"
    unfolding filteredNotes_filter by (rule subseq_filter_left)
  ultimately show ?thesis using filteredNotes_latin1 [of st] by blast
qed

theorem filteredNotes_spec_witness:
  "search searchingMilk = js ''MILK'' \<and> notes searchingMilk = [groceries, noteB, noteA] \<and>
   latin1 (search searchingMilk) \<and>
   list_all (\<lambda>n. latin1 (title n) \<and> latin1 (content n)) (notes searchingMilk) \<and>
   filteredNotes searchingMilk = [groceries] \<and>
   filter
     (\<lambda>n. containsIgnoringCase (title n) (js ''MILK'') \<or>
          containsIgnoringCase (content n) (js ''MILK''))
     [groceries, noteB, noteA] = [groceries] \<and>
   content groceries = js ''Milk, eggs'' \<and>
   containsIgnoringCase (js ''Milk, eggs'') (js ''MILK'') \<and>
   search (mount 1024 [groceries, noteB, noteA]) = [] \<and>
   filteredNotes (mount 1024 [groceries, noteB, noteA]) = [groceries, noteB, noteA]"
proof -
  have s: "search searchingMilk = js ''MILK''" "notes searchingMilk = [groceries, noteB, noteA]"
    by (simp_all add: searching_eq)
  have l: "latin1 (search searchingMilk)"
    "list_all (\<lambda>n. latin1 (title n) \<and> latin1 (content n)) (notes searchingMilk)"
    unfolding s by (rule latin1_examples)+
  from filteredNotes_spec [of searchingMilk] l
  have "filteredNotes searchingMilk =
     filter
       (\<lambda>n. containsIgnoringCase (title n) (search searchingMilk) \<or>
            containsIgnoringCase (content n) (search searchingMilk))
       (notes searchingMilk)"
    by blast
  then have f: "filter
     (\<lambda>n. containsIgnoringCase (title n) (js ''MILK'') \<or>
          containsIgnoringCase (content n) (js ''MILK''))
     [groceries, noteB, noteA] = [groceries]"
    unfolding s filteredNotes_examples by (rule sym)
  have m: "search (mount 1024 [groceries, noteB, noteA]) = []"
    "notes (mount 1024 [groceries, noteB, noteA]) = [groceries, noteB, noteA]"
    by (simp_all add: mount_def selectEffect_def handleResize_def)
  from filteredNotes_spec [of "mount 1024 [groceries, noteB, noteA]"] m
  have e: "filteredNotes (mount 1024 [groceries, noteB, noteA]) = [groceries, noteB, noteA]"
    by simp
  have g: "content groceries = js ''Milk, eggs''" by (simp add: groceries_def)
  from s l filteredNotes_examples(1) f g contains_examples(1) m(1) e show ?thesis by blast
qed

text \<open>
  C7 as stated fails on the capital sigma. The note's title is the two letters capital
  alpha, capital sigma, and the query is a capital sigma: the title contains the query
  as it stands. \<open>toLowerCase\<close> maps the title's sigma, at the end of a word, to the final
  sigma U+03C2 and the query's sigma, alone, to U+03C3, so \<open>includes\<close> finds nothing and
  the note is filtered out.
\<close>

theorem final_sigma_is_not_found:
  "notes searchingSigma = [sigmaNote] \<and> search searchingSigma = [0x3A3] \<and>
   title sigmaNote = [0x391, 0x3A3] \<and>
   containsIgnoringCase (title sigmaNote) (search searchingSigma) \<and>
   toLowerCase (title sigmaNote) = [0x3B1, 0x3C2] \<and>
   toLowerCase (search searchingSigma) = [0x3C3] \<and>
   filteredNotes searchingSigma = []"
  by (simp add: searching_eq sigmaNote_def lower_examples contains_examples
      filteredNotes_examples [unfolded searching_eq sigmaNote_def])

text \<open>
  C8. Deleting removes every note with the given id. When that id was the selection, the
  selection afterwards is the id of the first note that remains, and there is no
  selection and the empty message is shown when none remains. When another id was the
  selection, \<open>handleDeleteNote\<close> leaves the selection as it was, and so does the effect
  that follows it in a state whose selection names a note of the collection.
\<close>

theorem delete_reselects:
  "notes (dispatch (DeleteNote i) st) = filter (\<lambda>n. note_id n \<noteq> i) (notes st) \<and>
   (selectedId st = Some i \<longrightarrow>
      selectedId (dispatch (DeleteNote i) st) =
        (case filter (\<lambda>n. note_id n \<noteq> i) (notes st) of
           [] \<Rightarrow> None | n # _ \<Rightarrow> Some (note_id n))) \<and>
   (filter (\<lambda>n. note_id n \<noteq> i) (notes st) = [] \<longrightarrow>
      selectedId (dispatch (DeleteNote i) st) = None \<and>
      MainArea (dispatch (DeleteNote i) st) = NoNotes) \<and>
   (selectedId st \<noteq> Some i \<longrightarrow> selectedId (handleDeleteNote i st) = selectedId st) \<and>
   (selectedId st \<noteq> Some i \<and> selectionValid st \<longrightarrow>
      selectedId (dispatch (DeleteNote i) st) = selectedId st)"
proof -
  have a: "notes (dispatch (DeleteNote i) st) = filter (\<lambda>n. note_id n \<noteq> i) (notes st)"
    by (simp add: dispatch_delete selectEffect_notes handleDeleteNote_fields remaining_def)
  have b: "selectedId st = Some i \<longrightarrow>
      selectedId (dispatch (DeleteNote i) st) =
        (case filter (\<lambda>n. note_id n \<noteq> i) (notes st) of
           [] \<Rightarrow> None | n # _ \<Rightarrow> Some (note_id n))"
    using delete_selected [of st i] by (simp add: remaining_def)
  have c: "filter (\<lambda>n. note_id n \<noteq> i) (notes st) = [] \<longrightarrow>
      selectedId (dispatch (DeleteNote i) st) = None \<and>
      MainArea (dispatch (DeleteNote i) st) = NoNotes"
    using delete_last_shows_empty [of i st]
    by (simp add: remaining_def dispatch_delete selectEffect_selectedId handleDeleteNote_fields)
  have d: "selectedId st \<noteq> Some i \<longrightarrow> selectedId (handleDeleteNote i st) = selectedId st"
    by (simp add: handleDeleteNote_fields)
  have e: "selectedId st \<noteq> Some i \<and> selectionValid st \<longrightarrow>
      selectedId (dispatch (DeleteNote i) st) = selectedId st"
    using delete_other_valid [of st i] by blast
  from a b c d e show ?thesis by blast
qed

theorem delete_reselects_witness:
  "selectedId viewingB = Some (js ''1712044800000'') \<and>
   selectedId (dispatch (DeleteNote (js ''1712044800000'')) viewingB) = Some (js ''1711958400000'') \<and>
   selectedId viewingB \<noteq> Some (js ''1711958400000'') \<and> selectionValid viewingB \<and>
   selectedId (handleDeleteNote (js ''1711958400000'') viewingB) = Some (js ''1712044800000'') \<and>
   selectedId (dispatch (DeleteNote (js ''1711958400000'')) viewingB) = Some (js ''1712044800000'') \<and>
   filter (\<lambda>n. note_id n \<noteq> js ''1712044800000'') (notes (dispatch (DeleteNote (js ''1711958400000'')) viewingB)) = [] \<and>
   MainArea (dispatch (DeleteNote (js ''1712044800000'')) (dispatch (DeleteNote (js ''1711958400000'')) viewingB)) = NoNotes"
proof -
  have h1: "selectedId viewingB = Some (js ''1712044800000'')" by (simp add: viewingB_eq)
  have h2: "selectedId viewingB \<noteq> Some (js ''1711958400000'')" by (simp add: viewingB_eq js_def)
  have ids: "note_id noteB = js ''1712044800000''" "note_id noteA = js ''1711958400000''" "js ''1711958400000'' \<noteq> js ''1712044800000''"
    by (simp_all add: noteA_def noteB_def js_def)
  have n: "notes viewingB = [noteB, noteA]" by (simp add: viewingB_eq)
  let ?one = "dispatch (DeleteNote (js ''1711958400000'')) viewingB"
  from delete_reselects [of "js ''1712044800000''" viewingB] h1
  have a: "selectedId (dispatch (DeleteNote (js ''1712044800000'')) viewingB) = Some (js ''1711958400000'')"
    by (simp add: n ids)
  from delete_reselects [of "js ''1711958400000''" viewingB] h2 selectionValid_viewingB
  have b: "selectedId ?one = Some (js ''1712044800000'')" "notes ?one = [noteB]"
    "selectedId (handleDeleteNote (js ''1711958400000'') viewingB) = Some (js ''1712044800000'')"
    by (simp_all add: n ids h1)
  then have c: "filter (\<lambda>n. note_id n \<noteq> js ''1712044800000'') (notes ?one) = []"
    by (simp add: ids)
  with delete_reselects [of "js ''1712044800000''" ?one]
  have d: "MainArea (dispatch (DeleteNote (js ''1712044800000'')) ?one) = NoNotes" by blast
  from h1 h2 selectionValid_viewingB a b c d show ?thesis by simp
qed

text \<open>
  C9. When \<open>persist\<close> succeeds on a collection of notes, \<open>load\<close> on the storage it
  leaves returns the value of that collection: the array of the notes' objects, with the
  same notes in the same order.
\<close>

theorem persist_then_load:
  assumes "persist quota ns stg = Inr stg'"
  shows "load stg' = Inr (notesValue ns) \<and> valueNotes (notesValue ns) = Some ns"
  using load_persist [OF assms] by (simp add: valueNotes_notesValue)

theorem persist_then_load_witness:
  "persist 5000000 [noteA] [] = Inr [(storageKey, noteAText)] \<and>
   load [(storageKey, noteAText)] = Inr (notesValue [noteA]) \<and>
   valueNotes (notesValue [noteA]) = Some [noteA]"
proof -
  have p: "persist 5000000 [noteA] [] = Inr [(storageKey, noteAText)]"
    by (simp add: persist_def setItem_def putItem_def usage_def stringify_noteA
        storageKey_length noteAText_length)
  from persist_then_load [OF p] p show ?thesis by simp
qed

text \<open>
  C10. Whatever commands run from the empty collection, every note of the collection has
  a non-empty title.
\<close>

theorem titles_never_empty:
  "\<forall>n \<in> set (notes (exec cmds (mount w []))). title n \<noteq> []"
proof -
  have "titlesOk (mount w [])" by (simp add: titlesOk_def mount_empty_notes)
  then have "titlesOk (exec cmds (mount w []))" by (rule exec_titlesOk)
  then show ?thesis by (simp add: titlesOk_def)
qed

theorem titles_never_empty_witness:
  "title (hd (notes (exec firstNote (mount 1024 [])))) = js ''(Untitled)'' \<and>
   title (hd (notes (exec firstNote (mount 1024 [])))) \<noteq> []"
  using titles_never_empty [of firstNote 1024] by (simp add: exec_firstNote)

end
